theory Spec2Isabelle
  imports Complex_Main
begin

section \<open>Data model of the geometry-to-text utilities (client/src/Utility.ts)\<close>

text \<open>
  JavaScript numbers are modelled as rationals: every finite double is a rational, and
  comparisons, \<open>Math.max\<close>, \<open>Math.min\<close> and \<open>Math.round\<close> of doubles are exact.
  An arithmetic operation on doubles returns its exact result rounded to a double; that
  rounding is a parameter \<open>fl\<close> of the functions that compute (section on rounding
  below), so nothing proved depends on how it rounds. \<open>NaN\<close> and the infinities are
  outside the model. An array of
  numbers (\<open>number[]\<close>, among them the eight-number polygons) is a \<open>rat list\<close>.
  Reading an array out of range gives \<open>undefined\<close> in JavaScript; the read
  \<open>js_at\<close> returns \<open>None\<close> there, and every comparison with \<open>undefined\<close> is
  false, as \<open>undefined < x\<close> is in JavaScript.
\<close>

type_synonym polygon = "rat list"

definition js_at :: "'a list \<Rightarrow> int \<Rightarrow> 'a option" where
  "js_at xs i = (if 0 \<le> i \<and> i < int (length xs) then Some (xs ! nat i) else None)"

fun js_lt :: "rat option \<Rightarrow> rat option \<Rightarrow> bool" where
  "js_lt (Some a) (Some b) = (a < b)"
| "js_lt _ _ = False"

fun js_gt :: "rat option \<Rightarrow> rat option \<Rightarrow> bool" where
  "js_gt (Some a) (Some b) = (a > b)"
| "js_gt _ _ = False"

text \<open>\<open>Math.max\<close> and \<open>Math.min\<close> of two arguments: \<open>NaN\<close> (here \<open>None\<close>) as soon
  as one argument is \<open>undefined\<close>.\<close>

fun js_max :: "rat option \<Rightarrow> rat option \<Rightarrow> rat option" where
  "js_max (Some a) (Some b) = Some (max a b)"
| "js_max _ _ = None"

fun js_min :: "rat option \<Rightarrow> rat option \<Rightarrow> rat option" where
  "js_min (Some a) (Some b) = Some (min a b)"
| "js_min _ _ = None"

text \<open>\<open>Array.prototype.slice(start, end)\<close> on integer arguments: a negative index
  counts from the end, and both indices are clamped to the array.\<close>

definition js_slice :: "'a list \<Rightarrow> int \<Rightarrow> int \<Rightarrow> 'a list" where
  "js_slice xs start end' =
     (let len = int (length xs);
          k = (if start < 0 then max (len + start) 0 else min start len);
          final = (if end' < 0 then max (len + end') 0 else min end' len)
      in take (nat (final - k)) (drop (nat k) xs))"

text \<open>\<open>Array.prototype.join(sep)\<close> on an array of strings.\<close>

fun js_join :: "string \<Rightarrow> string list \<Rightarrow> string" where
  "js_join sep [] = []"
| "js_join sep [x] = x"
| "js_join sep (x # y # ys) = x @ sep @ js_join sep (y # ys)"

text \<open>A thrown \<open>TypeError\<close> (a property read on \<open>undefined\<close>, a \<open>for ... of\<close> over a
  value that is not iterable) is the left summand of a function's result.\<close>

datatype error = TypeError

record Span =
  span_offset :: int
  span_length :: int

record Word =
  word_content :: string
  word_polygon :: polygon
  word_span :: Span

record Line =
  line_content :: string
  line_polygon :: polygon
  line_spans :: "Span list"

text \<open>Modelled from the spec: the declaration of a page's precomputed \<open>Region\<close> (in
  \<open>./di\<close>) is not among the sources; section 3 of the specification gives its fields.
  The index pairs are inclusive ranges into the page's lines and words.\<close>

record Region =
  region_polygon :: polygon
  lineIndices :: "int \<times> int"
  wordIndices :: "int \<times> int"
  paragraphIndex :: int

text \<open>A page of the analysis result; \<open>regions\<close> is optional (\<open>pg.regions?.map\<close>).
  \<open>DocIntResponse\<close> is reduced to \<open>analyzeResult.pages\<close>, the only part these
  functions read.\<close>

record Page =
  pageNumber :: int
  page_lines :: "Line list"
  page_words :: "Word list"
  page_regions :: "Region list option"

record DocIntResponse =
  pages :: "Page list"

record Column =
  col_polygon :: polygon
  col_lines :: "Line list"

record Bounds =
  bounds_pageNumber :: int
  bounds_polygon :: polygon

text \<open>\<open>PolygonC\<close>: the optional parts of a selection that spans several lines.\<close>

record PolygonC =
  head :: "polygon option"
  body :: "polygon option"
  tail :: "polygon option"

record PolygonOnPage =
  pop_polygon :: PolygonC
  pop_page :: int


section \<open>Rounding and geometry primitives\<close>

text \<open>
  \<open>round(value, precision)\<close> computes \<open>Math.round(value * multiplier) / multiplier\<close>
  with \<open>multiplier = Math.pow(10, precision)\<close>. \<open>Math.round\<close> is exact on a double:
  the nearest integer, a half upwards. The power, the product and the quotient are
  double operations: each is the exact result passed through \<open>fl\<close>, the rounding of a
  rational to a double. For the value \<open>6.282 / 72\<close>, for instance, the double product
  with \<open>10000\<close> is \<open>872.4999999999999\<close> and the result \<open>0.0872\<close>, where exact
  arithmetic would give \<open>0.0873\<close>.
\<close>

definition round_to :: "(rat \<Rightarrow> rat) \<Rightarrow> rat \<Rightarrow> nat \<Rightarrow> rat" where
  "round_to fl v precision =
     (let multiplier = fl (10 ^ precision)
      in fl (of_int \<lfloor>fl (v * multiplier) + 1 / 2\<rfloor> / multiplier))"

definition polygonize :: "rat \<times> rat \<Rightarrow> rat \<times> rat \<Rightarrow> polygon" where
  "polygonize x y = [fst x, fst y, snd x, fst y, snd x, snd y, fst x, snd y]"

definition comparePolygons :: "polygon \<Rightarrow> polygon \<Rightarrow> int" where
  "comparePolygons poly refPoly =
     (let x = (js_at poly 0, js_at poly 2);
          y = (js_at poly 1, js_at poly 5);
          refX = (js_at refPoly 0, js_at refPoly 2);
          refY = (js_at refPoly 1, js_at refPoly 5)
      in if js_lt (snd y) (fst refY) then - 1
         else if js_gt (fst y) (snd refY) then 1
         else if js_lt (snd x) (fst refX) then - 2
         else if js_gt (fst x) (snd refX) then 2
         else 0)"


section \<open>Binary search for lines by polygon\<close>

text \<open>
  The index helpers walk from \<open>axis\<close> while the neighbour still compares \<open>0\<close>. The
  read \<open>lines[axis].polygon\<close> throws on a missing entry: the result is \<open>None\<close>.
\<close>

function getFirstPolyIntersectionIndex :: "Line list \<Rightarrow> polygon \<Rightarrow> int \<Rightarrow> int option" where
  "getFirstPolyIntersectionIndex lines poly axis =
     (let axis' = axis - 1
      in if axis' \<ge> 0
         then (case js_at lines axis' of
                 None \<Rightarrow> None
               | Some l \<Rightarrow>
                   if comparePolygons poly (line_polygon l) = 0
                   then getFirstPolyIntersectionIndex lines poly axis'
                   else Some (axis' + 1))
         else Some (axis' + 1))"
  by pat_completeness auto
termination
  by (relation "measure (\<lambda>(lines, poly, axis). nat axis)") auto

function getLastPolyIntersectionIndex :: "Line list \<Rightarrow> polygon \<Rightarrow> int \<Rightarrow> int option" where
  "getLastPolyIntersectionIndex lines poly axis =
     (let axis' = axis + 1
      in if axis' < int (length lines)
         then (case js_at lines axis' of
                 None \<Rightarrow> None
               | Some l \<Rightarrow>
                   if comparePolygons poly (line_polygon l) = 0
                   then getLastPolyIntersectionIndex lines poly axis'
                   else Some (axis' - 1))
         else Some (axis' - 1))"
  by pat_completeness auto
termination
  by (relation "measure (\<lambda>(lines, poly, axis). nat (int (length lines) - axis))") auto

text \<open>
  \<open>polygonBinarySearch(lines, start, end, poly)\<close> searches \<open>lines[start, end)\<close>. The
  recursion need not end on a window with \<open>start > end\<close>, so the function is partial:
  \<open>None\<close> stands for a run that returns no list (a thrown \<open>TypeError\<close> on a missing
  entry, an unbounded recursion, or the \<open>switch\<close> falling through).
\<close>

partial_function (option) polygonBinarySearch ::
  "Line list \<Rightarrow> int \<Rightarrow> int \<Rightarrow> polygon \<Rightarrow> Line list option" where
  "polygonBinarySearch lines start end' poly =
     (if end' = 0 then Some []
      else if start = end' then Some []
      else let axis = (end' - start) div 2 + start
           in (case js_at lines axis of
                 None \<Rightarrow> None
               | Some l \<Rightarrow>
                   let c = comparePolygons poly (line_polygon l)
                   in if c = - 2 \<or> c = - 1 then polygonBinarySearch lines start axis poly
                      else if c = 0 then
                        (case getFirstPolyIntersectionIndex lines poly axis of
                           None \<Rightarrow> None
                         | Some firstIndex \<Rightarrow>
                             (case getLastPolyIntersectionIndex lines poly axis of
                                None \<Rightarrow> None
                              | Some lastIndex \<Rightarrow> Some (js_slice lines firstIndex (lastIndex + 1))))
                      else if c = 1 \<or> c = 2 then polygonBinarySearch lines (axis + 1) end' poly
                      else None))"

declare polygonBinarySearch.simps [code]


section \<open>Binary search for words by offset\<close>

text \<open>The offset range is the two-element array \<open>[offsetStart, offsetEnd]\<close> of the one
  call site, a pair here.\<close>

definition compareOffsets :: "int \<times> int \<Rightarrow> int \<Rightarrow> int" where
  "compareOffsets offsetRange refOffset =
     (if snd offsetRange < refOffset then - 1
      else if fst offsetRange > refOffset then 1
      else 0)"

function getFirstOffsetIntersectionIndex :: "Word list \<Rightarrow> int \<Rightarrow> int \<times> int \<Rightarrow> int option" where
  "getFirstOffsetIntersectionIndex words axis offsetRange =
     (let axis' = axis - 1
      in if axis' \<ge> 0
         then (case js_at words axis' of
                 None \<Rightarrow> None
               | Some w \<Rightarrow>
                   if compareOffsets offsetRange (span_offset (word_span w)) = 0
                   then getFirstOffsetIntersectionIndex words axis' offsetRange
                   else Some (axis' + 1))
         else Some (axis' + 1))"
  by pat_completeness auto
termination
  by (relation "measure (\<lambda>(words, axis, offsetRange). nat axis)") auto

function getLastOffsetIntersectionIndex :: "Word list \<Rightarrow> int \<Rightarrow> int \<times> int \<Rightarrow> int option" where
  "getLastOffsetIntersectionIndex words axis offsetRange =
     (let axis' = axis + 1
      in if axis' < int (length words)
         then (case js_at words axis' of
                 None \<Rightarrow> None
               | Some w \<Rightarrow>
                   if compareOffsets offsetRange (span_offset (word_span w)) = 0
                   then getLastOffsetIntersectionIndex words axis' offsetRange
                   else Some (axis' - 1))
         else Some (axis' - 1))"
  by pat_completeness auto
termination
  by (relation "measure (\<lambda>(words, axis, offsetRange). nat (int (length words) - axis))") auto

partial_function (option) offsetBinarySearch ::
  "Word list \<Rightarrow> int \<Rightarrow> int \<Rightarrow> int \<times> int \<Rightarrow> Word list option" where
  "offsetBinarySearch words start end' offsetRange =
     (if end' = 0 then Some []
      else if start = end' then Some []
      else let axis = (end' - start) div 2 + start
           in (case js_at words axis of
                 None \<Rightarrow> None
               | Some w \<Rightarrow>
                   let c = compareOffsets offsetRange (span_offset (word_span w))
                   in if c = - 1 then offsetBinarySearch words start axis offsetRange
                      else if c = 0 then
                        (case getFirstOffsetIntersectionIndex words axis offsetRange of
                           None \<Rightarrow> None
                         | Some firstIndex \<Rightarrow>
                             (case getLastOffsetIntersectionIndex words axis offsetRange of
                                None \<Rightarrow> None
                              | Some lastIndex \<Rightarrow> Some (js_slice words firstIndex (lastIndex + 1))))
                      else if c = 1 then offsetBinarySearch words (axis + 1) end' offsetRange
                      else None))"

declare offsetBinarySearch.simps [code]


section \<open>Collaborators of the missing module \<open>./di\<close>\<close>

text \<open>
  \<open>adjacent\<close>, \<open>onSameLine\<close>, \<open>flattenPolygon4\<close>, \<open>toPolygon4\<close>, \<open>combinePolygons\<close> and
  \<open>excerptToSummary\<close> are imported from \<open>./di\<close>, which is not among the sources. The
  functions below that call them take them as parameters (\<open>adj\<close>, \<open>osl\<close>, \<open>flat\<close>,
  \<open>toP4\<close>, \<open>combine\<close>, \<open>locate\<close>), so what is proved holds for every implementation.
  The definitions of this section give the examples something concrete to run.
\<close>

text \<open>Modelled from the spec: the default \<open>delta\<close> of \<open>adjacent\<close> (section 4.1:
  \<open>adjacent(polyA, polyB, delta=0.2)\<close>), the value a two-argument call uses.\<close>

definition defaultDelta :: rat where
  "defaultDelta = 2 / 10"

text \<open>Modelled from the spec: \<open>adjacent\<close>, missing with \<open>./di\<close>. Section 4.1 and the version
  left as a comment at the head of Utility.ts agree: edges rounded to one decimal, no
  overlap when one rectangle starts more than \<open>delta\<close> past the other's end on some axis.
  The rounding to one decimal and the sum with \<open>delta\<close> are the exact ones of the
  specification's words.\<close>

definition oneDecimal :: "rat \<Rightarrow> rat" where
  "oneDecimal v = of_int \<lfloor>v * 10 + 1 / 2\<rfloor> / 10"

definition adjacent :: "polygon \<Rightarrow> polygon \<Rightarrow> rat \<Rightarrow> bool" where
  "adjacent poly0 poly1 delta =
     (let r = map_option oneDecimal;
          plus = (\<lambda>a. map_option (\<lambda>v. v + delta) a);
          x0 = (r (js_at poly0 0), r (js_at poly0 2));
          y0 = (r (js_at poly0 1), r (js_at poly0 5));
          x1 = (r (js_at poly1 0), r (js_at poly1 2));
          y1 = (r (js_at poly1 1), r (js_at poly1 5));
          noOverlap =
            (js_gt (fst x0) (plus (snd x1)) \<or> js_gt (fst x1) (plus (snd x0)) \<or>
             js_gt (fst y0) (plus (snd y1)) \<or> js_gt (fst y1) (plus (snd y0)))
      in \<not> noOverlap)"

text \<open>Modelled from the spec: \<open>onSameLine\<close>, missing with \<open>./di\<close>. Section 4.1: the
  vertical extents overlap by at least the given fraction of the smaller height.\<close>

definition onSameLine :: "polygon \<Rightarrow> polygon \<Rightarrow> rat \<Rightarrow> bool" where
  "onSameLine polyA polyB minOverlapFraction =
     (case (js_at polyA 1, js_at polyA 5, js_at polyB 1, js_at polyB 5) of
        (Some topA, Some bottomA, Some topB, Some bottomB) \<Rightarrow>
          min bottomA bottomB - max topA topB
            \<ge> minOverlapFraction * min (bottomA - topA) (bottomB - topB)
      | _ \<Rightarrow> False)"

text \<open>Modelled from the spec: \<open>combinePolygons\<close> on the lines of a column, missing with
  \<open>./di\<close>. Section 4.4: the union bounding box of the member lines.\<close>

definition unionBox :: "polygon list \<Rightarrow> polygon" where
  "unionBox ps =
     polygonize (Min (set (map (\<lambda>p. p ! 0) ps)), Max (set (map (\<lambda>p. p ! 2) ps)))
                (Min (set (map (\<lambda>p. p ! 1) ps)), Max (set (map (\<lambda>p. p ! 5) ps)))"


section \<open>Columns\<close>

text \<open>The loop of \<open>splitIntoColumns\<close> over \<open>currentLine\<close>, with its two variables
  \<open>firstLineOfCol\<close> and \<open>cols\<close>. \<open>lines[currentLine + 1]\<close> is read only when
  \<open>currentLine\<close> is not the last index.\<close>

function splitLoop ::
  "(polygon \<Rightarrow> polygon \<Rightarrow> rat \<Rightarrow> bool) \<Rightarrow> (polygon list \<Rightarrow> polygon) \<Rightarrow> Line list \<Rightarrow>
   nat \<Rightarrow> nat \<Rightarrow> Column list \<Rightarrow> Column list" where
  "splitLoop adj combine lines currentLine firstLineOfCol cols =
     (if currentLine < length lines
      then (if currentLine = length lines - 1 \<or>
               \<not> adj (line_polygon (lines ! (currentLine + 1)))
                     (line_polygon (lines ! currentLine)) defaultDelta
            then (let colLines = js_slice lines (int firstLineOfCol) (int currentLine + 1);
                      polygon = combine (map line_polygon colLines)
                  in splitLoop adj combine lines (currentLine + 1) (currentLine + 1)
                       (cols @ [\<lparr>col_polygon = polygon, col_lines = colLines\<rparr>]))
            else splitLoop adj combine lines (currentLine + 1) firstLineOfCol cols)
      else cols)"
  by pat_completeness auto
termination
  by (relation "measure (\<lambda>(adj, combine, lines, currentLine, firstLineOfCol, cols).
        length lines - currentLine)") auto

definition splitIntoColumns ::
  "(polygon \<Rightarrow> polygon \<Rightarrow> rat \<Rightarrow> bool) \<Rightarrow> (polygon list \<Rightarrow> polygon) \<Rightarrow> Line list \<Rightarrow> Column list" where
  "splitIntoColumns adj combine lines =
     (if length lines = 0 then [\<lparr>col_polygon = [], col_lines = []\<rparr>]
      else if length lines = 1
      then [\<lparr>col_polygon = line_polygon (lines ! 0), col_lines = lines\<rparr>]
      else splitLoop adj combine lines 0 0 [])"

definition getRelevantColumns :: "Column list \<Rightarrow> polygon \<Rightarrow> Column list" where
  "getRelevantColumns columns poly =
     filter (\<lambda>col. comparePolygons (col_polygon col) poly = 0) columns"


section \<open>From bounds to text\<close>

text \<open>The lines of the relevant columns that intersect the bound: the inner loop of
  \<open>findTextFromBoundingRegions\<close>.\<close>

fun searchColumns :: "Column list \<Rightarrow> polygon \<Rightarrow> Line list \<Rightarrow> error + Line list" where
  "searchColumns [] poly intersectingLines = Inr intersectingLines"
| "searchColumns (col # rest) poly intersectingLines =
     (case polygonBinarySearch (col_lines col) 0 (int (length (col_lines col))) poly of
        None \<Rightarrow> Inl TypeError
      | Some found \<Rightarrow> searchColumns rest poly (intersectingLines @ found))"

text \<open>The loop over the bounds, with its accumulator \<open>excerptWords\<close>. A page, a line's
  first span or a search result that is missing makes the next property read throw.\<close>

fun collectExcerptWords ::
  "(polygon \<Rightarrow> polygon \<Rightarrow> rat \<Rightarrow> bool) \<Rightarrow> (polygon list \<Rightarrow> polygon) \<Rightarrow> DocIntResponse \<Rightarrow>
   Bounds list \<Rightarrow> Word list \<Rightarrow> error + Word list" where
  "collectExcerptWords adj combine response [] excerptWords = Inr excerptWords"
| "collectExcerptWords adj combine response (bound # rest) excerptWords =
     (case js_at (pages response) (bounds_pageNumber bound - 1) of
        None \<Rightarrow> Inl TypeError
      | Some page \<Rightarrow>
          let lines = page_lines page;
              words = page_words page;
              columns = splitIntoColumns adj combine lines;
              relevantColumns = getRelevantColumns columns (bounds_polygon bound)
          in (case searchColumns relevantColumns (bounds_polygon bound) [] of
                Inl e \<Rightarrow> Inl e
              | Inr intersectingLines \<Rightarrow>
                  if length intersectingLines = 0
                  then collectExcerptWords adj combine response rest excerptWords
                  else (case (js_at (line_spans (intersectingLines ! 0)) 0,
                              js_at (line_spans (intersectingLines ! (length intersectingLines - 1))) 0) of
                          (Some firstSpan, Some lastSpan) \<Rightarrow>
                            let offsetStart = span_offset firstSpan;
                                offsetEnd = span_offset lastSpan + span_length lastSpan
                            in (case offsetBinarySearch words 0 (int (length words))
                                       (offsetStart, offsetEnd) of
                                  None \<Rightarrow> Inl TypeError
                                | Some intersectingWords \<Rightarrow>
                                    collectExcerptWords adj combine response rest
                                      (excerptWords @
                                       filter (\<lambda>word. comparePolygons (word_polygon word)
                                                        (bounds_polygon bound) = 0)
                                              intersectingWords))
                        | _ \<Rightarrow> Inl TypeError)))"

definition findTextFromBoundingRegions ::
  "(polygon \<Rightarrow> polygon \<Rightarrow> rat \<Rightarrow> bool) \<Rightarrow> (polygon list \<Rightarrow> polygon) \<Rightarrow> DocIntResponse \<Rightarrow>
   Bounds list \<Rightarrow> error + string" where
  "findTextFromBoundingRegions adj combine response bounds =
     (case collectExcerptWords adj combine response bounds [] of
        Inl e \<Rightarrow> Inl e
      | Inr excerptWords \<Rightarrow>
          let excerpts = map word_content excerptWords;
              excerpt = js_join '' '' excerpts
          in Inr (if excerpt = [] then ''could not find matching line(s)'' else excerpt))"


section \<open>From a complex polygon to its paragraph and its words\<close>

text \<open>The test of one word against the parts of the complex polygon.\<close>

definition wordMatches ::
  "(polygon \<Rightarrow> polygon \<Rightarrow> rat \<Rightarrow> bool) \<Rightarrow> (polygon \<Rightarrow> polygon \<Rightarrow> rat \<Rightarrow> bool) \<Rightarrow>
   PolygonC \<Rightarrow> Word \<Rightarrow> bool" where
  "wordMatches adj osl polyC word =
     ((case head polyC of None \<Rightarrow> False
       | Some h \<Rightarrow> adj (word_polygon word) h (- (5 / 100)) \<and> osl (word_polygon word) h (9 / 10)) \<or>
      (case body polyC of None \<Rightarrow> False
       | Some b \<Rightarrow> adj (word_polygon word) b (- (1 / 10)) \<and> osl (word_polygon word) b (9 / 10)) \<or>
      (case tail polyC of None \<Rightarrow> False
       | Some t \<Rightarrow> adj (word_polygon word) t (- (5 / 100)) \<and> osl (word_polygon word) t (9 / 10)))"

fun pushMatchingWords ::
  "(polygon \<Rightarrow> polygon \<Rightarrow> rat \<Rightarrow> bool) \<Rightarrow> (polygon \<Rightarrow> polygon \<Rightarrow> rat \<Rightarrow> bool) \<Rightarrow>
   PolygonC \<Rightarrow> Word list \<Rightarrow> Word list \<Rightarrow> Word list" where
  "pushMatchingWords adj osl polyC [] excerptWords = excerptWords"
| "pushMatchingWords adj osl polyC (word # rest) excerptWords =
     pushMatchingWords adj osl polyC rest
       (if wordMatches adj osl polyC word then excerptWords @ [word] else excerptWords)"

text \<open>\<open>findTextFromPolygonC\<close>. The paragraph index is what \<open>findParagraphFromBoundingPolygonC\<close>
  returned, \<open>undefined\<close> (\<open>None\<close>) included: \<open>regions[undefined]\<close>, like an index out of
  range, is \<open>undefined\<close>, and reading \<open>wordIndices\<close> of it throws, as does reading a
  missing page or indexing missing \<open>regions\<close>.\<close>

definition findTextFromPolygonC ::
  "(polygon \<Rightarrow> polygon \<Rightarrow> rat \<Rightarrow> bool) \<Rightarrow> (polygon \<Rightarrow> polygon \<Rightarrow> rat \<Rightarrow> bool) \<Rightarrow>
   DocIntResponse \<Rightarrow> PolygonOnPage \<Rightarrow> int option \<Rightarrow> error + string" where
  "findTextFromPolygonC adj osl response incomingPolygonC incomingPolygonCParagraph =
     (case js_at (pages response) (pop_page incomingPolygonC - 1) of
        None \<Rightarrow> Inl TypeError
      | Some regionPage \<Rightarrow>
          (case page_regions regionPage of
             None \<Rightarrow> Inl TypeError
           | Some regions \<Rightarrow>
               (case (case incomingPolygonCParagraph of
                        None \<Rightarrow> None
                      | Some i \<Rightarrow> js_at regions i) of
                  None \<Rightarrow> Inl TypeError
                | Some polygonRegion \<Rightarrow>
                    let regionPossibleWords =
                          js_slice (page_words regionPage) (fst (wordIndices polygonRegion))
                                   (snd (wordIndices polygonRegion) + 1);
                        excerptWords =
                          pushMatchingWords adj osl (pop_polygon incomingPolygonC)
                            regionPossibleWords [];
                        excerpts = map word_content excerptWords
                    in Inr (js_join '' '' excerpts))))"

text \<open>The test of one region against the parts of the complex polygon, with the argument
  orders of the source.\<close>

definition regionMatches ::
  "(polygon \<Rightarrow> polygon \<Rightarrow> rat \<Rightarrow> bool) \<Rightarrow> (polygon \<Rightarrow> polygon \<Rightarrow> rat \<Rightarrow> bool) \<Rightarrow>
   PolygonC \<Rightarrow> Region \<Rightarrow> bool" where
  "regionMatches adj osl polyC region =
     (if (case head polyC of None \<Rightarrow> False
          | Some h \<Rightarrow> osl h (region_polygon region) (9 / 10) \<and> adj h (region_polygon region) (1 / 10))
      then True
      else if (case body polyC of None \<Rightarrow> False
               | Some b \<Rightarrow> osl (region_polygon region) b (9 / 10) \<and> adj b (region_polygon region) (1 / 10))
      then True
      else if (case tail polyC of None \<Rightarrow> False
               | Some t \<Rightarrow> osl (region_polygon region) t (9 / 10) \<and> adj t (region_polygon region) (1 / 10))
      then True
      else False)"

text \<open>\<open>Set.prototype.add\<close> on a set kept in insertion order.\<close>

definition set_add :: "int list \<Rightarrow> int \<Rightarrow> int list" where
  "set_add s i = (if i \<in> set s then s else s @ [i])"

fun scanRegions ::
  "(polygon \<Rightarrow> polygon \<Rightarrow> rat \<Rightarrow> bool) \<Rightarrow> (polygon \<Rightarrow> polygon \<Rightarrow> rat \<Rightarrow> bool) \<Rightarrow>
   PolygonC \<Rightarrow> Region list \<Rightarrow> int \<Rightarrow> int list \<Rightarrow> int list" where
  "scanRegions adj osl polyC [] index found_paragraphs = found_paragraphs"
| "scanRegions adj osl polyC (region # rest) index found_paragraphs =
     scanRegions adj osl polyC rest (index + 1)
       (if regionMatches adj osl polyC region then set_add found_paragraphs index
        else found_paragraphs)"

fun scanPages ::
  "(polygon \<Rightarrow> polygon \<Rightarrow> rat \<Rightarrow> bool) \<Rightarrow> (polygon \<Rightarrow> polygon \<Rightarrow> rat \<Rightarrow> bool) \<Rightarrow>
   PolygonOnPage \<Rightarrow> Page list \<Rightarrow> int list \<Rightarrow> int list" where
  "scanPages adj osl polyC [] found_paragraphs = found_paragraphs"
| "scanPages adj osl polyC (pg # rest) found_paragraphs =
     scanPages adj osl polyC rest
       (if pageNumber pg \<noteq> pop_page polyC then found_paragraphs
        else (case page_regions pg of
                None \<Rightarrow> found_paragraphs
              | Some regions \<Rightarrow>
                  scanRegions adj osl (pop_polygon polyC) regions 0 found_paragraphs))"

definition findParagraphFromBoundingPolygonC ::
  "(polygon \<Rightarrow> polygon \<Rightarrow> rat \<Rightarrow> bool) \<Rightarrow> (polygon \<Rightarrow> polygon \<Rightarrow> rat \<Rightarrow> bool) \<Rightarrow>
   DocIntResponse \<Rightarrow> PolygonOnPage \<Rightarrow> int option" where
  "findParagraphFromBoundingPolygonC adj osl response polyC =
     (let found_paragraphs = scanPages adj osl polyC (pages response) []
      in if length found_paragraphs > 1 then None
         else if length found_paragraphs \<le> 0 then None
         else Some (found_paragraphs ! 0))"


section \<open>From text to bounds\<close>

text \<open>
  \<open>convertCitationRegionsToBounds\<close> walks \<open>citationRegions\<close> with two nested
  \<open>for ... of\<close> loops: each region must be iterable and yield complex polygons. The
  caller \<open>returnTextPolygonsFromDI\<close> fills \<open>citationRegions\<close> from a
  \<open>Map<number, PolygonC[]>\<close>, so there a region is a single \<open>PolygonC\<close> object.
  Both shapes are values of \<open>CitationRegion\<close>; \<open>for ... of\<close> over an object that is
  not iterable throws a \<open>TypeError\<close>.
\<close>

datatype CitationRegion = RegionArray "PolygonC list" | RegionObject PolygonC

record CitationRegionsPerPage =
  crp_page :: int
  citationRegions :: "CitationRegion list"

text \<open>The body of the inner loop: the bounds pushed for one complex polygon. The writes
  \<open>modifiedHead[5] = tailTop\<close> and the like happen only after a comparison that is false
  on \<open>undefined\<close>, so the written index is in range.\<close>

definition polyCBounds :: "(polygon \<Rightarrow> polygon) \<Rightarrow> bool \<Rightarrow> int \<Rightarrow> PolygonC \<Rightarrow> Bounds list" where
  "polyCBounds flat forceOverlap page polyC =
     (let headBounds =
            (case head polyC of
               None \<Rightarrow> []
             | Some h \<Rightarrow>
                 let modifiedHead =
                       (if forceOverlap \<and> body polyC = None then
                          (case tail polyC of
                             None \<Rightarrow> h
                           | Some t \<Rightarrow>
                               (case (js_max (js_at h 5) (js_at h 7), js_min (js_at t 1) (js_at t 3)) of
                                  (Some headBottom, Some tailTop) \<Rightarrow>
                                    if headBottom < tailTop then h[5 := tailTop, 7 := tailTop] else h
                                | _ \<Rightarrow> h))
                        else h)
                 in [\<lparr>bounds_pageNumber = page, bounds_polygon = modifiedHead\<rparr>]);
          bodyBounds =
            (case body polyC of
               None \<Rightarrow> []
             | Some b \<Rightarrow>
                 let afterHead =
                       (if forceOverlap then
                          (case head polyC of
                             None \<Rightarrow> b
                           | Some h \<Rightarrow>
                               (case (js_max (js_at h 5) (js_at h 7), js_min (js_at b 1) (js_at b 3)) of
                                  (Some headBottom, Some bodyTop) \<Rightarrow>
                                    if headBottom < bodyTop then b[1 := headBottom, 3 := headBottom] else b
                                | _ \<Rightarrow> b))
                        else b);
                     modifiedBody =
                       (if forceOverlap then
                          (case tail polyC of
                             None \<Rightarrow> afterHead
                           | Some t \<Rightarrow>
                               (case (js_min (js_at t 1) (js_at t 3),
                                      js_max (js_at afterHead 5) (js_at afterHead 7)) of
                                  (Some tailTop, Some bodyBottom) \<Rightarrow>
                                    if bodyBottom < tailTop
                                    then afterHead[5 := tailTop, 7 := tailTop] else afterHead
                                | _ \<Rightarrow> afterHead))
                        else afterHead)
                 in [\<lparr>bounds_pageNumber = page, bounds_polygon = modifiedBody\<rparr>]);
          tailBounds =
            (case tail polyC of
               None \<Rightarrow> []
             | Some t \<Rightarrow> [\<lparr>bounds_pageNumber = page, bounds_polygon = flat t\<rparr>])
      in headBounds @ bodyBounds @ tailBounds)"

fun regionBounds ::
  "(polygon \<Rightarrow> polygon) \<Rightarrow> bool \<Rightarrow> int \<Rightarrow> CitationRegion \<Rightarrow> error + Bounds list" where
  "regionBounds flat forceOverlap page (RegionArray polyCs) =
     Inr (concat (map (polyCBounds flat forceOverlap page) polyCs))"
| "regionBounds flat forceOverlap page (RegionObject polyC) = Inl TypeError"

fun pageBounds ::
  "(polygon \<Rightarrow> polygon) \<Rightarrow> bool \<Rightarrow> int \<Rightarrow> CitationRegion list \<Rightarrow> error + Bounds list" where
  "pageBounds flat forceOverlap page [] = Inr []"
| "pageBounds flat forceOverlap page (region # rest) =
     (case regionBounds flat forceOverlap page region of
        Inl e \<Rightarrow> Inl e
      | Inr bs \<Rightarrow>
          (case pageBounds flat forceOverlap page rest of
             Inl e \<Rightarrow> Inl e
           | Inr bs' \<Rightarrow> Inr (bs @ bs')))"

fun convertCitationRegionsToBounds ::
  "(polygon \<Rightarrow> polygon) \<Rightarrow> CitationRegionsPerPage list \<Rightarrow> bool \<Rightarrow> error + Bounds list" where
  "convertCitationRegionsToBounds flat [] forceOverlap = Inr []"
| "convertCitationRegionsToBounds flat (crp # rest) forceOverlap =
     (case pageBounds flat forceOverlap (crp_page crp) (citationRegions crp) of
        Inl e \<Rightarrow> Inl e
      | Inr bs \<Rightarrow>
          (case convertCitationRegionsToBounds flat rest forceOverlap of
             Inl e \<Rightarrow> Inl e
           | Inr bs' \<Rightarrow> Inr (bs @ bs')))"

text \<open>The result of the text-locate collaborator \<open>excerptToSummary\<close>, as
  \<open>returnTextPolygonsFromDI\<close> and the viewer read it.\<close>

record Summary =
  excerpt :: string
  polygons :: "PolygonOnPage list"

text \<open>\<open>String.prototype.trim\<close> leaves nothing exactly when every character is white
  space; of the characters a \<open>char\<close> can hold these are the six ASCII ones and the
  no-break space.\<close>

definition js_whitespace :: "char \<Rightarrow> bool" where
  "js_whitespace c =
     (c = CHR 0x09 \<or> c = CHR 0x0A \<or> c = CHR 0x0B \<or> c = CHR 0x0C \<or> c = CHR 0x0D \<or>
      c = CHR 0x20 \<or> c = CHR 0xA0)"

definition js_blank :: "string \<Rightarrow> bool" where
  "js_blank s = list_all js_whitespace s"

text \<open>The \<open>Map<number, PolygonC[]>\<close> that groups the polygons by page, in insertion
  order of its keys.\<close>

fun map_push :: "(int \<times> PolygonC list) list \<Rightarrow> int \<Rightarrow> PolygonC \<Rightarrow> (int \<times> PolygonC list) list" where
  "map_push [] page polygon = [(page, [polygon])]"
| "map_push ((k, vs) # m) page polygon =
     (if k = page then (k, vs @ [polygon]) # m else (k, vs) # map_push m page polygon)"

fun groupByPage :: "PolygonOnPage list \<Rightarrow> (int \<times> PolygonC list) list \<Rightarrow> (int \<times> PolygonC list) list" where
  "groupByPage [] m = m"
| "groupByPage (p # rest) m = groupByPage rest (map_push m (pop_page p) (pop_polygon p))"

definition returnTextPolygonsFromDI ::
  "(string \<Rightarrow> DocIntResponse \<Rightarrow> Summary) \<Rightarrow> (polygon \<Rightarrow> polygon) \<Rightarrow> string \<Rightarrow> DocIntResponse \<Rightarrow>
   error + Bounds list" where
  "returnTextPolygonsFromDI locate flat text di =
     (let summary = locate text di
      in if excerpt summary = [] \<or> js_blank (excerpt summary) then Inr []
         else let m = groupByPage (polygons summary) [];
                  results = map (\<lambda>(page, regions).
                                  \<lparr>crp_page = page, citationRegions = map RegionObject regions\<rparr>) m;
                  sorted_results = sort_key crp_page results
              in convertCitationRegionsToBounds flat sorted_results False)"


section \<open>The selection pipeline\<close>

text \<open>A rectangle of \<open>range.getClientRects()\<close>.\<close>

record Rect =
  rect_x :: rat
  rect_y :: rat
  rect_width :: rat
  rect_height :: rat

text \<open>The corner list \<open>rectCoords\<close> of a rectangle; its sums are double operations.\<close>

definition rectCoords :: "(rat \<Rightarrow> rat) \<Rightarrow> Rect \<Rightarrow> rat list" where
  "rectCoords fl rect =
     [rect_x rect, rect_y rect,
      fl (rect_x rect + rect_width rect), rect_y rect,
      fl (rect_x rect + rect_width rect), fl (rect_y rect + rect_height rect),
      rect_x rect, fl (rect_y rect + rect_height rect)]"

fun collectSelectionPolygons ::
  "(rat \<Rightarrow> rat) \<Rightarrow> (rat list \<Rightarrow> polygon) \<Rightarrow> Rect list \<Rightarrow> polygon list \<Rightarrow> polygon list" where
  "collectSelectionPolygons fl toP4 [] selectionPolygons = selectionPolygons"
| "collectSelectionPolygons fl toP4 (rect # rest) selectionPolygons =
     collectSelectionPolygons fl toP4 rest
       (if rect_width rect > 0
        then selectionPolygons @ [toP4 (rectCoords fl rect)]
        else selectionPolygons)"

text \<open>The right-hand side \<open>round((v - d) / multiplier, 4)\<close> with \<open>multiplier = 72\<close>: a
  double subtraction, a double division, and \<open>round\<close>.\<close>

definition toInch :: "(rat \<Rightarrow> rat) \<Rightarrow> rat \<Rightarrow> rat \<Rightarrow> rat" where
  "toInch fl d v = round_to fl (fl (fl (v - d) / 72)) 4"

text \<open>One statement \<open>poly[i] = round((poly[i] - d) / multiplier, 4)\<close>. On a missing entry
  JavaScript would store \<open>NaN\<close>, which the number model leaves out: \<open>None\<close>.\<close>

definition adjustEntry :: "(rat \<Rightarrow> rat) \<Rightarrow> int \<Rightarrow> rat \<Rightarrow> polygon \<Rightarrow> polygon option" where
  "adjustEntry fl i d poly =
     (case js_at poly i of
        None \<Rightarrow> None
      | Some v \<Rightarrow> Some (poly[nat i := toInch fl d v]))"

definition toInches :: "(rat \<Rightarrow> rat) \<Rightarrow> rat \<Rightarrow> rat \<Rightarrow> polygon \<Rightarrow> polygon option" where
  "toInches fl dx dy poly =
     Option.bind (adjustEntry fl 1 dy poly) (\<lambda>poly.
     Option.bind (adjustEntry fl 3 dy poly) (\<lambda>poly.
     Option.bind (adjustEntry fl 0 dx poly) (\<lambda>poly.
     Option.bind (adjustEntry fl 2 dx poly) (\<lambda>poly.
     Option.bind (adjustEntry fl 5 dy poly) (\<lambda>poly.
     Option.bind (adjustEntry fl 7 dy poly) (\<lambda>poly.
     Option.bind (adjustEntry fl 4 dx poly) (\<lambda>poly.
     adjustEntry fl 6 dx poly)))))))"

fun toInchesAll :: "(rat \<Rightarrow> rat) \<Rightarrow> rat \<Rightarrow> rat \<Rightarrow> polygon list \<Rightarrow> polygon list option" where
  "toInchesAll fl dx dy [] = Some []"
| "toInchesAll fl dx dy (poly # rest) =
     (case toInches fl dx dy poly of
        None \<Rightarrow> None
      | Some p \<Rightarrow> (case toInchesAll fl dx dy rest of None \<Rightarrow> None | Some ps \<Rightarrow> Some (p # ps)))"

text \<open>Lines 609 to 662 of \<open>findUserSelection\<close>: the page-space polygons of the selection.
  The offsets \<open>dx\<close> and \<open>dy\<close>, read from the document in the source, are parameters.\<close>

definition selectionPolygonsInInches ::
  "(rat \<Rightarrow> rat) \<Rightarrow> (rat list \<Rightarrow> polygon) \<Rightarrow> rat \<Rightarrow> rat \<Rightarrow> Rect list \<Rightarrow> polygon list option" where
  "selectionPolygonsInInches fl toP4 dx dy selectionRects =
     toInchesAll fl dx dy (collectSelectionPolygons fl toP4 selectionRects [])"

text \<open>The loop over the complex polygons of the selection, with its accumulator
  \<open>excerpt\<close>.\<close>

fun selectionExcerpt ::
  "(polygon \<Rightarrow> polygon \<Rightarrow> rat \<Rightarrow> bool) \<Rightarrow> (polygon \<Rightarrow> polygon \<Rightarrow> rat \<Rightarrow> bool) \<Rightarrow>
   DocIntResponse \<Rightarrow> int \<Rightarrow> PolygonC list \<Rightarrow> string \<Rightarrow> error + string" where
  "selectionExcerpt adj osl response pageNum [] excerpt' = Inr excerpt'"
| "selectionExcerpt adj osl response pageNum (c # rest) excerpt' =
     (let complexSelectionOnPage = \<lparr>pop_polygon = c, pop_page = pageNum\<rparr>;
          paragraphId = findParagraphFromBoundingPolygonC adj osl response complexSelectionOnPage
      in (case findTextFromPolygonC adj osl response complexSelectionOnPage paragraphId of
            Inl e \<Rightarrow> Inl e
          | Inr t \<Rightarrow> selectionExcerpt adj osl response pageNum rest (excerpt' @ t)))"

definition findUserSelection ::
  "(rat \<Rightarrow> rat) \<Rightarrow>
   (polygon \<Rightarrow> polygon \<Rightarrow> rat \<Rightarrow> bool) \<Rightarrow> (polygon \<Rightarrow> polygon \<Rightarrow> rat \<Rightarrow> bool) \<Rightarrow>
   (rat list \<Rightarrow> polygon) \<Rightarrow> (polygon list \<Rightarrow> PolygonC list) \<Rightarrow>
   (string \<Rightarrow> DocIntResponse \<Rightarrow> Summary) \<Rightarrow> (polygon \<Rightarrow> polygon) \<Rightarrow>
   rat \<Rightarrow> rat \<Rightarrow> int \<Rightarrow> Rect list \<Rightarrow> DocIntResponse \<Rightarrow> (error + string \<times> Bounds list) option" where
  "findUserSelection fl adj osl toP4 combine locate flat dx dy pageNum selectionRects response =
     (case selectionPolygonsInInches fl toP4 dx dy selectionRects of
        None \<Rightarrow> None
      | Some selectionPolygons \<Rightarrow>
          Some (let complexSelection = combine selectionPolygons
                in (case selectionExcerpt adj osl response pageNum complexSelection [] of
                      Inl e \<Rightarrow> Inl e
                    | Inr excerpt' \<Rightarrow>
                        (case returnTextPolygonsFromDI locate flat excerpt' response of
                           Inl e \<Rightarrow> Inl e
                         | Inr bounds \<Rightarrow> Inr (excerpt', bounds)))))"


section \<open>The common scheme of both searches\<close>

text \<open>
  Section 4.3 of the specification describes one search parameterised by a three-way
  comparator. The source writes that search out twice, once for lines and once for
  words; the scheme below is the same recursion over an arbitrary sign function, and
  serves to prove the properties of both at once. \<open>signRank\<close> orders the signs the way a sequence in
  reading order presents them to the comparator: first the entries the query lies
  after (positive sign), then the entries it overlaps (\<open>0\<close>), then the entries it lies
  before (negative sign).
\<close>

definition signRank :: "int \<Rightarrow> nat" where
  "signRank c = (if c > 0 then 0 else if c = 0 then 1 else 2)"

function firstIntersectionIndex :: "('a \<Rightarrow> int) \<Rightarrow> 'a list \<Rightarrow> int \<Rightarrow> int option" where
  "firstIntersectionIndex cmp xs axis =
     (let axis' = axis - 1
      in if axis' \<ge> 0
         then (case js_at xs axis' of
                 None \<Rightarrow> None
               | Some x \<Rightarrow>
                   if cmp x = 0 then firstIntersectionIndex cmp xs axis'
                   else Some (axis' + 1))
         else Some (axis' + 1))"
  by pat_completeness auto
termination
  by (relation "measure (\<lambda>(cmp, xs, axis). nat axis)") auto

function lastIntersectionIndex :: "('a \<Rightarrow> int) \<Rightarrow> 'a list \<Rightarrow> int \<Rightarrow> int option" where
  "lastIntersectionIndex cmp xs axis =
     (let axis' = axis + 1
      in if axis' < int (length xs)
         then (case js_at xs axis' of
                 None \<Rightarrow> None
               | Some x \<Rightarrow>
                   if cmp x = 0 then lastIntersectionIndex cmp xs axis'
                   else Some (axis' - 1))
         else Some (axis' - 1))"
  by pat_completeness auto
termination
  by (relation "measure (\<lambda>(cmp, xs, axis). nat (int (length xs) - axis))") auto

partial_function (option) binarySearch ::
  "('a \<Rightarrow> int) \<Rightarrow> 'a list \<Rightarrow> int \<Rightarrow> int \<Rightarrow> 'a list option" where
  "binarySearch cmp xs start end' =
     (if end' = 0 then Some []
      else if start = end' then Some []
      else let axis = (end' - start) div 2 + start
           in (case js_at xs axis of
                 None \<Rightarrow> None
               | Some x \<Rightarrow>
                   if cmp x < 0 then binarySearch cmp xs start axis
                   else if cmp x = 0 then
                     (case firstIntersectionIndex cmp xs axis of
                        None \<Rightarrow> None
                      | Some firstIndex \<Rightarrow>
                          (case lastIntersectionIndex cmp xs axis of
                             None \<Rightarrow> None
                           | Some lastIndex \<Rightarrow> Some (js_slice xs firstIndex (lastIndex + 1))))
                   else binarySearch cmp xs (axis + 1) end'))"


declare binarySearch.simps [code]

definition lineSign :: "polygon \<Rightarrow> Line \<Rightarrow> int" where
  "lineSign poly = (\<lambda>l. comparePolygons poly (line_polygon l))"

definition wordSign :: "int \<times> int \<Rightarrow> Word \<Rightarrow> int" where
  "wordSign offsetRange = (\<lambda>w. compareOffsets offsetRange (span_offset (word_span w)))"


section \<open>The page of the unit test (di/tests/unit/Preprocess.test.ts)\<close>

definition testPoly :: polygon where
  "testPoly = [100, 100, 200, 100, 200, 150, 100, 150]"

definition testWords :: "Word list" where
  "testWords =
    [\<lparr>word_content = ''First'', word_polygon = testPoly, word_span = \<lparr>span_offset = 0, span_length = 5\<rparr>\<rparr>,
     \<lparr>word_content = ''line'', word_polygon = testPoly, word_span = \<lparr>span_offset = 6, span_length = 4\<rparr>\<rparr>,
     \<lparr>word_content = ''of'', word_polygon = testPoly, word_span = \<lparr>span_offset = 11, span_length = 2\<rparr>\<rparr>,
     \<lparr>word_content = ''text,'', word_polygon = testPoly, word_span = \<lparr>span_offset = 14, span_length = 5\<rparr>\<rparr>,
     \<lparr>word_content = ''second'', word_polygon = testPoly, word_span = \<lparr>span_offset = 20, span_length = 6\<rparr>\<rparr>,
     \<lparr>word_content = ''line'', word_polygon = testPoly, word_span = \<lparr>span_offset = 27, span_length = 4\<rparr>\<rparr>,
     \<lparr>word_content = ''of'', word_polygon = testPoly, word_span = \<lparr>span_offset = 32, span_length = 2\<rparr>\<rparr>,
     \<lparr>word_content = ''text'', word_polygon = testPoly, word_span = \<lparr>span_offset = 35, span_length = 4\<rparr>\<rparr>]"

definition testLines :: "Line list" where
  "testLines =
    [\<lparr>line_content = ''First line   of text,'', line_polygon = testPoly,
      line_spans = [\<lparr>span_offset = 0, span_length = 19\<rparr>]\<rparr>,
     \<lparr>line_content = ''second line of text'', line_polygon = testPoly,
      line_spans = [\<lparr>span_offset = 20, span_length = 19\<rparr>]\<rparr>]"


section \<open>Example inputs\<close>

text \<open>Three lines stacked in one column, from top to bottom.\<close>

definition stackedLines :: "Line list" where
  "stackedLines =
    [\<lparr>line_content = ''a'', line_polygon = [0, 0, 5, 0, 5, 1, 0, 1], line_spans = []\<rparr>,
     \<lparr>line_content = ''b'', line_polygon = [0, 2, 5, 2, 5, 3, 0, 3], line_spans = []\<rparr>,
     \<lparr>line_content = ''c'', line_polygon = [0, 4, 5, 4, 5, 5, 0, 5], line_spans = []\<rparr>]"


text \<open>The page of the unit test with the region the test expects, as a document.\<close>

definition testRegion :: Region where
  "testRegion = \<lparr>region_polygon = testPoly, lineIndices = (0, 1), wordIndices = (0, 7), paragraphIndex = 0\<rparr>"

definition testPage :: Page where
  "testPage = \<lparr>pageNumber = 1, page_lines = testLines, page_words = testWords,
                page_regions = Some [testRegion]\<rparr>"

definition testDoc :: DocIntResponse where
  "testDoc = \<lparr>pages = [testPage]\<rparr>"

text \<open>A selection that is the polygon of the test page's paragraph, and one elsewhere
  on the page.\<close>

definition selectionOfTestPage :: PolygonOnPage where
  "selectionOfTestPage =
     \<lparr>pop_polygon = \<lparr>head = Some testPoly, body = None, tail = None\<rparr>, pop_page = 1\<rparr>"

definition boundElsewhere :: Bounds where
  "boundElsewhere = \<lparr>bounds_pageNumber = 1, bounds_polygon = [300, 300, 400, 300, 400, 350, 300, 350]\<rparr>"

text \<open>Two paragraphs, one above the other, and a selection box over both.\<close>

definition twoParagraphDoc :: DocIntResponse where
  "twoParagraphDoc =
     \<lparr>pages = [\<lparr>pageNumber = 1, page_lines = [], page_words = [],
                 page_regions = Some
                   [\<lparr>region_polygon = [0, 0, 5, 0, 5, 1, 0, 1], lineIndices = (0, 0),
                      wordIndices = (0, 0), paragraphIndex = 0\<rparr>,
                    \<lparr>region_polygon = [0, 1, 5, 1, 5, 2, 0, 2], lineIndices = (1, 1),
                      wordIndices = (1, 1), paragraphIndex = 1\<rparr>]\<rparr>]\<rparr>"

definition selectionOverBoth :: PolygonOnPage where
  "selectionOverBoth =
     \<lparr>pop_polygon = \<lparr>head = Some [0, 0, 5, 0, 5, 2, 0, 2], body = None, tail = None\<rparr>, pop_page = 1\<rparr>"

text \<open>Stand-ins for two collaborators: a \<open>combinePolygons\<close> that makes every rectangle
  a head of its own, and an \<open>excerptToSummary\<close> that echoes the text and locates no
  fragment. A screen rectangle one inch square at the origin.\<close>

definition headOnly :: "polygon list \<Rightarrow> PolygonC list" where
  "headOnly ps = map (\<lambda>p. \<lparr>head = Some p, body = None, tail = None\<rparr>) ps"

definition locateNothing :: "string \<Rightarrow> DocIntResponse \<Rightarrow> Summary" where
  "locateNothing text di = \<lparr>excerpt = text, polygons = []\<rparr>"

definition inchSquare :: Rect where
  "inchSquare = \<lparr>rect_x = 0, rect_y = 0, rect_width = 72, rect_height = 72\<rparr>"


section \<open>Predicates of the statements\<close>

text \<open>Region \<open>j\<close> of page \<open>pg\<close> is a region of the named page that some present part of
  the complex polygon is on the same line as (fraction \<open>0.9\<close>) and adjacent to
  (\<open>delta = 0.1\<close>), in the words of section 4.7 of the specification and with the
  argument orders of the source.\<close>

definition pageMatches ::
  "(polygon \<Rightarrow> polygon \<Rightarrow> rat \<Rightarrow> bool) \<Rightarrow> (polygon \<Rightarrow> polygon \<Rightarrow> rat \<Rightarrow> bool) \<Rightarrow>
   PolygonOnPage \<Rightarrow> Page \<Rightarrow> int \<Rightarrow> bool" where
  "pageMatches adj osl polyC pg j =
     (pageNumber pg = pop_page polyC \<and>
      (case page_regions pg of
         None \<Rightarrow> False
       | Some rs \<Rightarrow> 0 \<le> j \<and> j < int (length rs) \<and>
           (let r = region_polygon (rs ! nat j)
            in (case head (pop_polygon polyC) of
                  None \<Rightarrow> False
                | Some h \<Rightarrow> osl h r (9 / 10) \<and> adj h r (1 / 10)) \<or>
               (case body (pop_polygon polyC) of
                  None \<Rightarrow> False
                | Some b \<Rightarrow> osl r b (9 / 10) \<and> adj b r (1 / 10)) \<or>
               (case tail (pop_polygon polyC) of
                  None \<Rightarrow> False
                | Some t \<Rightarrow> osl r t (9 / 10) \<and> adj t r (1 / 10)))))"

text \<open>The precondition section 7 of the specification leaves to the caller: the page of
  every bound exists, and every line of it has a first span.\<close>

definition pagesReadable :: "DocIntResponse \<Rightarrow> Bounds list \<Rightarrow> bool" where
  "pagesReadable response bounds =
     list_all (\<lambda>bound.
        case js_at (pages response) (bounds_pageNumber bound - 1) of
          None \<Rightarrow> False
        | Some page \<Rightarrow> list_all (\<lambda>l. line_spans l \<noteq> []) (page_lines page)) bounds"


section \<open>Properties of the primitives and the searches\<close>

lemma comparePolygons_eight:
  assumes "length poly = 8" "length refPoly = 8"
  shows "comparePolygons poly refPoly =
           (if poly ! 5 < refPoly ! 1 then - 1
            else if poly ! 1 > refPoly ! 5 then 1
            else if poly ! 2 < refPoly ! 0 then - 2
            else if poly ! 0 > refPoly ! 2 then 2
            else 0)"
  using assms by (simp add: comparePolygons_def js_at_def)


declare firstIntersectionIndex.simps [simp del] lastIntersectionIndex.simps [simp del]

lemma js_at_Some: "0 \<le> i \<Longrightarrow> i < int (length xs) \<Longrightarrow> js_at xs i = Some (xs ! nat i)"
  by (simp add: js_at_def)

lemma js_slice_nonneg:
  "0 \<le> f \<Longrightarrow> f \<le> j \<Longrightarrow> j \<le> int (length xs) \<Longrightarrow>
   js_slice xs f j = take (nat (j - f)) (drop (nat f) xs)"
  by (simp add: js_slice_def Let_def min_def)

lemma first_run:
  "0 \<le> a \<Longrightarrow> a \<le> int (length xs) \<Longrightarrow>
   \<exists>f. firstIntersectionIndex cmp xs a = Some f \<and> 0 \<le> f \<and> f \<le> a \<and>
       (\<forall>k. f \<le> k \<and> k < a \<longrightarrow> cmp (xs ! nat k) = 0) \<and>
       (f = 0 \<or> cmp (xs ! nat (f - 1)) \<noteq> 0)"
proof (induction cmp xs a rule: firstIntersectionIndex.induct)
  case (1 cmp xs axis)
  show ?case
  proof (cases "axis - 1 \<ge> 0")
    case False
    with "1.prems" have "axis = 0" by simp
    then show ?thesis by (auto simp: firstIntersectionIndex.simps)
  next
    case True
    with "1.prems" have at: "js_at xs (axis - 1) = Some (xs ! nat (axis - 1))"
      by (simp add: js_at_Some)
    show ?thesis
    proof (cases "cmp (xs ! nat (axis - 1)) = 0")
      case False
      with True at show ?thesis
        by (subst firstIntersectionIndex.simps) (auto simp: Let_def)
    next
      case z: True
      from "1.IH"[OF refl True at z] True "1.prems"
      obtain f where f: "firstIntersectionIndex cmp xs (axis - 1) = Some f" "0 \<le> f" "f \<le> axis - 1"
        "\<forall>k. f \<le> k \<and> k < axis - 1 \<longrightarrow> cmp (xs ! nat k) = 0"
        "f = 0 \<or> cmp (xs ! nat (f - 1)) \<noteq> 0"
        by auto
      have "\<forall>k. f \<le> k \<and> k < axis \<longrightarrow> cmp (xs ! nat k) = 0"
      proof (intro allI impI)
        fix k assume "f \<le> k \<and> k < axis"
        then have "k < axis - 1 \<or> k = axis - 1" by auto
        with f(4) z \<open>f \<le> k \<and> k < axis\<close> show "cmp (xs ! nat k) = 0" by auto
      qed
      moreover have "firstIntersectionIndex cmp xs axis = Some f"
        using True at z f(1) by (subst firstIntersectionIndex.simps) (simp add: Let_def)
      ultimately show ?thesis using f by auto
    qed
  qed
qed

lemma last_run:
  "0 \<le> a \<Longrightarrow> a < int (length xs) \<Longrightarrow>
   \<exists>l. lastIntersectionIndex cmp xs a = Some l \<and> a \<le> l \<and> l < int (length xs) \<and>
       (\<forall>k. a < k \<and> k \<le> l \<longrightarrow> cmp (xs ! nat k) = 0) \<and>
       (l + 1 = int (length xs) \<or> cmp (xs ! nat (l + 1)) \<noteq> 0)"
proof (induction cmp xs a rule: lastIntersectionIndex.induct)
  case (1 cmp xs axis)
  show ?case
  proof (cases "axis + 1 < int (length xs)")
    case False
    with "1.prems" have "axis + 1 = int (length xs)" by simp
    then show ?thesis using "1.prems" by (auto simp: lastIntersectionIndex.simps)
  next
    case True
    with "1.prems" have at: "js_at xs (axis + 1) = Some (xs ! nat (axis + 1))"
      by (simp add: js_at_Some)
    show ?thesis
    proof (cases "cmp (xs ! nat (axis + 1)) = 0")
      case False
      with True at "1.prems" show ?thesis
        by (subst lastIntersectionIndex.simps) (auto simp: Let_def)
    next
      case z: True
      from "1.IH"[OF refl True at z] True "1.prems"
      obtain l where l: "lastIntersectionIndex cmp xs (axis + 1) = Some l" "axis + 1 \<le> l"
        "l < int (length xs)"
        "\<forall>k. axis + 1 < k \<and> k \<le> l \<longrightarrow> cmp (xs ! nat k) = 0"
        "l + 1 = int (length xs) \<or> cmp (xs ! nat (l + 1)) \<noteq> 0"
        by auto
      have "\<forall>k. axis < k \<and> k \<le> l \<longrightarrow> cmp (xs ! nat k) = 0"
      proof (intro allI impI)
        fix k assume "axis < k \<and> k \<le> l"
        then have "axis + 1 < k \<or> k = axis + 1" by auto
        with l(4) z \<open>axis < k \<and> k \<le> l\<close> show "cmp (xs ! nat k) = 0" by auto
      qed
      moreover have "lastIntersectionIndex cmp xs axis = Some l"
        using True at z l(1) by (subst lastIntersectionIndex.simps) (simp add: Let_def)
      ultimately show ?thesis using l by auto
    qed
  qed
qed

lemma filter_slice:
  assumes "f \<le> j" "j \<le> length xs"
    and P: "\<And>k. k < length xs \<Longrightarrow> P (xs ! k) \<longleftrightarrow> (f \<le> k \<and> k < j)"
  shows "filter P xs = take (j - f) (drop f xs)"
proof -
  have mid: "take (j - f) (drop f xs) @ drop j xs = drop f xs"
    using append_take_drop_id[of "j - f" "drop f xs"] assms(1) by simp
  have split: "xs = take f xs @ take (j - f) (drop f xs) @ drop j xs"
    by (simp add: mid)
  have a: "filter P (take f xs) = []"
    using assms by (auto simp: filter_empty_conv in_set_conv_nth)
  have b: "filter P (take (j - f) (drop f xs)) = take (j - f) (drop f xs)"
    using assms by (auto simp: filter_id_conv in_set_conv_nth)
  have c: "filter P (drop j xs) = []"
    using assms by (auto simp: filter_empty_conv in_set_conv_nth)
  have "filter P xs = filter P (take f xs @ take (j - f) (drop f xs) @ drop j xs)"
    using split by simp
  then show ?thesis using a b c by simp
qed

lemma sorted_rank_mono:
  assumes "sorted (map (\<lambda>x. signRank (cmp x)) xs)" "0 \<le> i" "i \<le> j" "j < int (length xs)"
  shows "signRank (cmp (xs ! nat i)) \<le> signRank (cmp (xs ! nat j))"
proof -
  have "nat i \<le> nat j" "nat j < length (map (\<lambda>x. signRank (cmp x)) xs)"
    using assms by auto
  from sorted_nth_mono[OF assms(1) this] show ?thesis
    using assms by simp
qed

lemma zero_run_is_filter:
  assumes srt: "sorted (map (\<lambda>x. signRank (cmp x)) xs)"
    and ax: "0 \<le> axis" "axis < int (length xs)" "cmp (xs ! nat axis) = 0"
    and f: "0 \<le> f" "f \<le> axis" "\<forall>k. f \<le> k \<and> k < axis \<longrightarrow> cmp (xs ! nat k) = 0"
           "f = 0 \<or> cmp (xs ! nat (f - 1)) \<noteq> 0"
    and l: "axis \<le> l" "l < int (length xs)" "\<forall>k. axis < k \<and> k \<le> l \<longrightarrow> cmp (xs ! nat k) = 0"
           "l + 1 = int (length xs) \<or> cmp (xs ! nat (l + 1)) \<noteq> 0"
  shows "js_slice xs f (l + 1) = filter (\<lambda>x. cmp x = 0) xs"
proof -
  have rax: "signRank (cmp (xs ! nat axis)) = 1"
    using ax(3) by (simp add: signRank_def)
  have inside: "cmp (xs ! nat k) = 0" if "f \<le> k" "k \<le> l" for k
  proof -
    consider "k < axis" | "k = axis" | "axis < k" by linarith
    then show ?thesis using that f(3) l(3) ax(3) by cases auto
  qed
  have below: "cmp (xs ! nat k) \<noteq> 0" if "0 \<le> k" "k < f" for k
  proof -
    from that f(4) have nz: "cmp (xs ! nat (f - 1)) \<noteq> 0" by auto
    have "signRank (cmp (xs ! nat (f - 1))) \<le> 1"
      using sorted_rank_mono[OF srt, of "f - 1" axis] that f(2) ax(2) rax by simp
    with nz have "signRank (cmp (xs ! nat (f - 1))) = 0"
      by (auto simp: signRank_def split: if_splits)
    moreover have "signRank (cmp (xs ! nat k)) \<le> signRank (cmp (xs ! nat (f - 1)))"
      using sorted_rank_mono[OF srt, of k "f - 1"] that f(2) ax(2) by simp
    ultimately show ?thesis by (auto simp: signRank_def split: if_splits)
  qed
  have above: "cmp (xs ! nat k) \<noteq> 0" if "l < k" "k < int (length xs)" for k
  proof -
    from that l(4) have nz: "cmp (xs ! nat (l + 1)) \<noteq> 0" by auto
    have "1 \<le> signRank (cmp (xs ! nat (l + 1)))"
      using sorted_rank_mono[OF srt, of axis "l + 1"] that l(1) ax(1) rax by simp
    with nz have "signRank (cmp (xs ! nat (l + 1))) = 2"
      by (auto simp: signRank_def split: if_splits)
    moreover have "signRank (cmp (xs ! nat (l + 1))) \<le> signRank (cmp (xs ! nat k))"
      using sorted_rank_mono[OF srt, of "l + 1" k] that l(1) ax(1) by simp
    ultimately show ?thesis by (auto simp: signRank_def split: if_splits)
  qed
  have char: "(cmp (xs ! k) = 0) \<longleftrightarrow> (nat f \<le> k \<and> k < nat (l + 1))" if "k < length xs" for k
  proof -
    consider "int k < f" | "f \<le> int k \<and> int k \<le> l" | "l < int k" by linarith
    then show ?thesis
    proof cases
      case 1
      with below[of "int k"] show ?thesis by auto
    next
      case 2
      with inside[of "int k"] show ?thesis by auto
    next
      case 3
      with above[of "int k"] that show ?thesis by auto
    qed
  qed
  have "filter (\<lambda>x. cmp x = 0) xs = take (nat (l + 1) - nat f) (drop (nat f) xs)"
    using f(1,2) l(1,2) by (intro filter_slice char) auto
  moreover have "js_slice xs f (l + 1) = take (nat (l + 1 - f)) (drop (nat f) xs)"
    using f(1,2) l(1,2) by (intro js_slice_nonneg) auto
  moreover have "nat (l + 1) - nat f = nat (l + 1 - f)"
    using f(1,2) l(1) by auto
  ultimately show ?thesis by simp
qed

lemma binarySearch_sorted:
  assumes srt: "sorted (map (\<lambda>x. signRank (cmp x)) xs)"
  shows "0 \<le> s \<Longrightarrow> s \<le> e \<Longrightarrow> e \<le> int (length xs) \<Longrightarrow>
     binarySearch cmp xs s e =
       Some (if \<exists>k. s \<le> k \<and> k < e \<and> cmp (xs ! nat k) = 0
             then filter (\<lambda>x. cmp x = 0) xs else [])"
proof (induction "nat (e - s)" arbitrary: s e rule: less_induct)
  case less
  show ?case
  proof (cases "e = 0 \<or> s = e")
    case True
    then show ?thesis using less.prems by (subst binarySearch.simps) auto
  next
    case False
    define axis where "axis = (e - s) div 2 + s"
    have ax: "s \<le> axis" "axis < e" using False less.prems by (auto simp: axis_def)
    then have ax0: "0 \<le> axis" "axis < int (length xs)" using less.prems by auto
    then have at: "js_at xs axis = Some (xs ! nat axis)" by (simp add: js_at_Some)
    consider (neg) "cmp (xs ! nat axis) < 0" | (zero) "cmp (xs ! nat axis) = 0"
      | (pos) "cmp (xs ! nat axis) > 0" by linarith
    then show ?thesis
    proof cases
      case neg
      then have rax: "signRank (cmp (xs ! nat axis)) = 2" by (simp add: signRank_def)
      have nz: "cmp (xs ! nat k) \<noteq> 0" if "axis \<le> k" "k < e" for k
      proof -
        have "2 \<le> signRank (cmp (xs ! nat k))"
          using sorted_rank_mono[OF srt, of axis k] that ax0 less.prems rax by simp
        then show ?thesis by (auto simp: signRank_def split: if_splits)
      qed
      have step: "binarySearch cmp xs s e = binarySearch cmp xs s axis"
        using False at neg by (subst binarySearch.simps) (simp add: axis_def Let_def)
      have ih: "binarySearch cmp xs s axis =
          Some (if \<exists>k. s \<le> k \<and> k < axis \<and> cmp (xs ! nat k) = 0
                then filter (\<lambda>x. cmp x = 0) xs else [])"
        using ax ax0 less.prems by (intro less.hyps) auto
      have "(\<exists>k. s \<le> k \<and> k < e \<and> cmp (xs ! nat k) = 0) \<longleftrightarrow>
            (\<exists>k. s \<le> k \<and> k < axis \<and> cmp (xs ! nat k) = 0)"
        using nz ax by (meson less_le_trans not_le order.strict_implies_order)
      with step ih show ?thesis by simp
    next
      case pos
      then have rax: "signRank (cmp (xs ! nat axis)) = 0" by (simp add: signRank_def)
      have nz: "cmp (xs ! nat k) \<noteq> 0" if "s \<le> k" "k \<le> axis" for k
      proof -
        have "signRank (cmp (xs ! nat k)) \<le> 0"
          using sorted_rank_mono[OF srt, of k axis] that ax0 less.prems rax by simp
        then show ?thesis by (auto simp: signRank_def split: if_splits)
      qed
      have step: "binarySearch cmp xs s e = binarySearch cmp xs (axis + 1) e"
        using False at pos by (subst binarySearch.simps) (simp add: axis_def Let_def)
      have ih: "binarySearch cmp xs (axis + 1) e =
          Some (if \<exists>k. axis + 1 \<le> k \<and> k < e \<and> cmp (xs ! nat k) = 0
                then filter (\<lambda>x. cmp x = 0) xs else [])"
        using ax ax0 less.prems by (intro less.hyps) auto
      have "(\<exists>k. s \<le> k \<and> k < e \<and> cmp (xs ! nat k) = 0) \<longleftrightarrow>
            (\<exists>k. axis + 1 \<le> k \<and> k < e \<and> cmp (xs ! nat k) = 0)"
      proof
        assume "\<exists>k. s \<le> k \<and> k < e \<and> cmp (xs ! nat k) = 0"
        then obtain k where k: "s \<le> k" "k < e" "cmp (xs ! nat k) = 0" by auto
        with nz[of k] have "\<not> k \<le> axis" by auto
        then have "axis + 1 \<le> k" by linarith
        with k show "\<exists>k. axis + 1 \<le> k \<and> k < e \<and> cmp (xs ! nat k) = 0" by auto
      next
        assume "\<exists>k. axis + 1 \<le> k \<and> k < e \<and> cmp (xs ! nat k) = 0"
        then obtain k where k: "axis + 1 \<le> k" "k < e" "cmp (xs ! nat k) = 0" by auto
        then have "s \<le> k" using ax by linarith
        with k show "\<exists>k. s \<le> k \<and> k < e \<and> cmp (xs ! nat k) = 0" by blast
      qed
      with step ih show ?thesis by simp
    next
      case zero
      from first_run[of axis xs cmp] ax0 obtain f where
        f: "firstIntersectionIndex cmp xs axis = Some f" "0 \<le> f" "f \<le> axis"
           "\<forall>k. f \<le> k \<and> k < axis \<longrightarrow> cmp (xs ! nat k) = 0"
           "f = 0 \<or> cmp (xs ! nat (f - 1)) \<noteq> 0" by auto
      from last_run[of axis xs cmp] ax0 obtain l where
        l: "lastIntersectionIndex cmp xs axis = Some l" "axis \<le> l" "l < int (length xs)"
           "\<forall>k. axis < k \<and> k \<le> l \<longrightarrow> cmp (xs ! nat k) = 0"
           "l + 1 = int (length xs) \<or> cmp (xs ! nat (l + 1)) \<noteq> 0" by auto
      have "binarySearch cmp xs s e = Some (js_slice xs f (l + 1))"
        using False at zero f(1) l(1) by (subst binarySearch.simps) (simp add: axis_def Let_def)
      moreover have "js_slice xs f (l + 1) = filter (\<lambda>x. cmp x = 0) xs"
        using zero_run_is_filter[OF srt ax0 zero f(2-5) l(2-5)] .
      moreover have "\<exists>k. s \<le> k \<and> k < e \<and> cmp (xs ! nat k) = 0"
        using ax zero by auto
      ultimately show ?thesis by simp
    qed
  qed
qed

declare getFirstPolyIntersectionIndex.simps [simp del] getLastPolyIntersectionIndex.simps [simp del]
  getFirstOffsetIntersectionIndex.simps [simp del] getLastOffsetIntersectionIndex.simps [simp del]

lemma comparePolygons_range: "comparePolygons p q \<in> {- 2, - 1, 0, 1, 2}"
  by (simp add: comparePolygons_def Let_def)

lemma compareOffsets_range: "compareOffsets r x \<in> {- 1, 0, 1}"
  by (simp add: compareOffsets_def)

lemma getFirstPoly_generic:
  "getFirstPolyIntersectionIndex lines poly axis = firstIntersectionIndex (lineSign poly) lines axis"
proof (induction lines poly axis rule: getFirstPolyIntersectionIndex.induct)
  case (1 lines poly axis)
  then show ?case
    by (subst getFirstPolyIntersectionIndex.simps, subst firstIntersectionIndex.simps)
       (auto simp: Let_def lineSign_def split: option.splits)
qed

lemma getLastPoly_generic:
  "getLastPolyIntersectionIndex lines poly axis = lastIntersectionIndex (lineSign poly) lines axis"
proof (induction lines poly axis rule: getLastPolyIntersectionIndex.induct)
  case (1 lines poly axis)
  then show ?case
    by (subst getLastPolyIntersectionIndex.simps, subst lastIntersectionIndex.simps)
       (auto simp: Let_def lineSign_def split: option.splits)
qed

lemma getFirstOffset_generic:
  "getFirstOffsetIntersectionIndex words axis r = firstIntersectionIndex (wordSign r) words axis"
proof (induction words axis r rule: getFirstOffsetIntersectionIndex.induct)
  case (1 words axis r)
  then show ?case
    by (subst getFirstOffsetIntersectionIndex.simps, subst firstIntersectionIndex.simps)
       (auto simp: Let_def wordSign_def split: option.splits)
qed

lemma getLastOffset_generic:
  "getLastOffsetIntersectionIndex words axis r = lastIntersectionIndex (wordSign r) words axis"
proof (induction words axis r rule: getLastOffsetIntersectionIndex.induct)
  case (1 words axis r)
  then show ?case
    by (subst getLastOffsetIntersectionIndex.simps, subst lastIntersectionIndex.simps)
       (auto simp: Let_def wordSign_def split: option.splits)
qed

lemma polygonBinarySearch_generic:
  "0 \<le> s \<Longrightarrow> s \<le> e \<Longrightarrow> e \<le> int (length lines) \<Longrightarrow>
   polygonBinarySearch lines s e poly = binarySearch (lineSign poly) lines s e"
proof (induction "nat (e - s)" arbitrary: s e rule: less_induct)
  case less
  show ?case
  proof (cases "e = 0 \<or> s = e")
    case True
    then show ?thesis
      by (subst polygonBinarySearch.simps, subst binarySearch.simps) auto
  next
    case False
    define axis where "axis = (e - s) div 2 + s"
    have ax: "s \<le> axis" "axis < e" using False less.prems by (auto simp: axis_def)
    have l: "polygonBinarySearch lines s axis poly = binarySearch (lineSign poly) lines s axis"
      using ax less.prems by (intro less.hyps) auto
    have r: "polygonBinarySearch lines (axis + 1) e poly = binarySearch (lineSign poly) lines (axis + 1) e"
      using ax less.prems by (intro less.hyps) auto
    have ax0: "0 \<le> axis" "axis < int (length lines)" using ax less.prems by auto
    then have at: "js_at lines axis = Some (lines ! nat axis)" by (simp add: js_at_Some)
    define c where "c = comparePolygons poly (line_polygon (lines ! nat axis))"
    have c': "lineSign poly (lines ! nat axis) = c" by (simp add: c_def lineSign_def)
    have "c \<in> {- 2, - 1, 0, 1, 2}" unfolding c_def by (rule comparePolygons_range)
    then consider (neg) "c = - 2 \<or> c = - 1" | (zero) "c = 0" | (pos) "c = 1 \<or> c = 2" by auto
    then show ?thesis
    proof cases
      case neg
      then have "c < 0" by auto
      with neg l False at show ?thesis
        by (subst polygonBinarySearch.simps, subst binarySearch.simps)
           (simp add: Let_def axis_def[symmetric] c_def[symmetric] c')
    next
      case zero
      with False at show ?thesis
        by (subst polygonBinarySearch.simps, subst binarySearch.simps)
           (simp add: Let_def axis_def[symmetric] c_def[symmetric] c'
              getFirstPoly_generic getLastPoly_generic split: option.splits)
    next
      case pos
      then have "\<not> c < 0" "c \<noteq> 0" "c \<noteq> - 2" "c \<noteq> - 1" by auto
      with pos r False at show ?thesis
        by (subst polygonBinarySearch.simps, subst binarySearch.simps)
           (simp add: Let_def axis_def[symmetric] c_def[symmetric] c')
    qed
  qed
qed

lemma offsetBinarySearch_generic:
  "0 \<le> s \<Longrightarrow> s \<le> e \<Longrightarrow> e \<le> int (length words) \<Longrightarrow>
   offsetBinarySearch words s e r = binarySearch (wordSign r) words s e"
proof (induction "nat (e - s)" arbitrary: s e rule: less_induct)
  case less
  show ?case
  proof (cases "e = 0 \<or> s = e")
    case True
    then show ?thesis
      by (subst offsetBinarySearch.simps, subst binarySearch.simps) auto
  next
    case False
    define axis where "axis = (e - s) div 2 + s"
    have ax: "s \<le> axis" "axis < e" using False less.prems by (auto simp: axis_def)
    have l: "offsetBinarySearch words s axis r = binarySearch (wordSign r) words s axis"
      using ax less.prems by (intro less.hyps) auto
    have r: "offsetBinarySearch words (axis + 1) e r = binarySearch (wordSign r) words (axis + 1) e"
      using ax less.prems by (intro less.hyps) auto
    have ax0: "0 \<le> axis" "axis < int (length words)" using ax less.prems by auto
    then have at: "js_at words axis = Some (words ! nat axis)" by (simp add: js_at_Some)
    define c where "c = compareOffsets r (span_offset (word_span (words ! nat axis)))"
    have c': "wordSign r (words ! nat axis) = c" by (simp add: c_def wordSign_def)
    have "c \<in> {- 1, 0, 1}" unfolding c_def by (rule compareOffsets_range)
    then consider (neg) "c = - 1" | (zero) "c = 0" | (pos) "c = 1" by auto
    then show ?thesis
    proof cases
      case neg
      with l False at show ?thesis
        by (subst offsetBinarySearch.simps, subst binarySearch.simps)
           (simp add: Let_def axis_def[symmetric] c_def[symmetric] c')
    next
      case zero
      with False at show ?thesis
        by (subst offsetBinarySearch.simps, subst binarySearch.simps)
           (simp add: Let_def axis_def[symmetric] c_def[symmetric] c'
              getFirstOffset_generic getLastOffset_generic split: option.splits)
    next
      case pos
      with r False at show ?thesis
        by (subst offsetBinarySearch.simps, subst binarySearch.simps)
           (simp add: Let_def axis_def[symmetric] c_def[symmetric] c')
    qed
  qed
qed

lemma zeros_contiguous:
  assumes srt: "sorted (map (\<lambda>x. signRank (cmp x)) xs)"
  shows "\<exists>i j. 0 \<le> i \<and> i \<le> j \<and> j \<le> int (length xs) \<and>
           filter (\<lambda>x. cmp x = 0) xs = js_slice xs i j"
proof (cases "\<exists>k. 0 \<le> k \<and> k < int (length xs) \<and> cmp (xs ! nat k) = 0")
  case False
  then have "\<forall>x\<in>set xs. cmp x \<noteq> 0"
    by (metis in_set_conv_nth nat_int of_nat_0_le_iff of_nat_less_iff)
  then have "filter (\<lambda>x. cmp x = 0) xs = []" by (simp add: filter_empty_conv)
  moreover have "js_slice xs 0 0 = []" by (simp add: js_slice_def)
  ultimately show ?thesis by (intro exI[of _ 0]) auto
next
  case True
  then obtain axis where ax: "0 \<le> axis" "axis < int (length xs)" "cmp (xs ! nat axis) = 0"
    by auto
  from first_run[of axis xs cmp] ax obtain f where
    f: "0 \<le> f" "f \<le> axis" "\<forall>k. f \<le> k \<and> k < axis \<longrightarrow> cmp (xs ! nat k) = 0"
       "f = 0 \<or> cmp (xs ! nat (f - 1)) \<noteq> 0" by auto
  from last_run[of axis xs cmp] ax obtain l where
    l: "axis \<le> l" "l < int (length xs)" "\<forall>k. axis < k \<and> k \<le> l \<longrightarrow> cmp (xs ! nat k) = 0"
       "l + 1 = int (length xs) \<or> cmp (xs ! nat (l + 1)) \<noteq> 0" by auto
  have "js_slice xs f (l + 1) = filter (\<lambda>x. cmp x = 0) xs"
    using zero_run_is_filter[OF srt ax f l] .
  then show ?thesis using f l by (intro exI[of _ f] exI[of _ "l + 1"]) auto
qed

lemma binarySearch_empty_window:
  "e = 0 \<or> s = e \<Longrightarrow> binarySearch cmp xs s e = Some []"
  by (subst binarySearch.simps) auto

lemma sorted_all_same_rank:
  "(\<forall>x\<in>set xs. cmp x < 0) \<or> (\<forall>x\<in>set xs. cmp x > 0) \<Longrightarrow>
   sorted (map (\<lambda>x. signRank (cmp x)) xs)"
proof (elim disjE)
  assume "\<forall>x\<in>set xs. cmp x < 0"
  then show ?thesis by (induction xs) (auto simp: signRank_def)
next
  assume "\<forall>x\<in>set xs. cmp x > 0"
  then show ?thesis by (induction xs) (auto simp: signRank_def)
qed

lemma binarySearch_outside:
  assumes "(\<forall>x\<in>set xs. cmp x < 0) \<or> (\<forall>x\<in>set xs. cmp x > 0)"
    and "0 \<le> s" "s \<le> e" "e \<le> int (length xs)"
  shows "binarySearch cmp xs s e = Some []"
proof -
  have "\<not> (\<exists>k. s \<le> k \<and> k < e \<and> cmp (xs ! nat k) = 0)"
  proof
    assume "\<exists>k. s \<le> k \<and> k < e \<and> cmp (xs ! nat k) = 0"
    then obtain k where k: "s \<le> k" "k < e" "cmp (xs ! nat k) = 0" by auto
    then have "xs ! nat k \<in> set xs" using assms(2,4) by (intro nth_mem) auto
    with assms(1) k(3) show False by auto
  qed
  with binarySearch_sorted[OF sorted_all_same_rank[OF assms(1)] assms(2-4)]
  show ?thesis by simp
qed

lemma sorted_offsets_rank:
  assumes "sorted (map (\<lambda>w. span_offset (word_span w)) words)"
  shows "sorted (map (\<lambda>w. signRank (wordSign r w)) words)"
proof -
  have mono: "signRank (wordSign r a) \<le> signRank (wordSign r b)"
    if "span_offset (word_span a) \<le> span_offset (word_span b)" for a b
    using that by (auto simp: signRank_def wordSign_def compareOffsets_def)
  from assms show ?thesis
    by (induction words) (auto intro: mono)
qed


section \<open>Claims about the comparator and the searches\<close>

text \<open>
  Claim C7. For two axis-aligned quadrilaterals (eight numbers each, left edge not right
  of the right edge, top edge not below the bottom edge), \<open>comparePolygons(poly, refPoly)\<close>
  returns \<open>-1\<close> when \<open>poly\<close> lies strictly above \<open>refPoly\<close> and \<open>+1\<close> when it lies
  strictly below; when the vertical extents overlap it returns \<open>-2\<close> when \<open>poly\<close> lies
  strictly to the left, \<open>+2\<close> when strictly to the right, and \<open>0\<close> when the extents
  overlap on both axes.
\<close>

theorem comparePolygons_reading_order:
  assumes "length poly = 8" "length refPoly = 8"
    and "poly ! 0 \<le> poly ! 2" "poly ! 1 \<le> poly ! 5"
    and "refPoly ! 0 \<le> refPoly ! 2" "refPoly ! 1 \<le> refPoly ! 5"
  shows
   "(poly ! 5 < refPoly ! 1 \<longrightarrow> comparePolygons poly refPoly = - 1) \<and>
    (poly ! 1 > refPoly ! 5 \<longrightarrow> comparePolygons poly refPoly = 1) \<and>
    (\<not> poly ! 5 < refPoly ! 1 \<and> \<not> poly ! 1 > refPoly ! 5 \<and> poly ! 2 < refPoly ! 0 \<longrightarrow>
       comparePolygons poly refPoly = - 2) \<and>
    (\<not> poly ! 5 < refPoly ! 1 \<and> \<not> poly ! 1 > refPoly ! 5 \<and> poly ! 0 > refPoly ! 2 \<longrightarrow>
       comparePolygons poly refPoly = 2) \<and>
    (\<not> poly ! 5 < refPoly ! 1 \<and> \<not> poly ! 1 > refPoly ! 5 \<and>
     \<not> poly ! 2 < refPoly ! 0 \<and> \<not> poly ! 0 > refPoly ! 2 \<longrightarrow>
       comparePolygons poly refPoly = 0)"
  using assms by (auto simp: comparePolygons_eight)

text \<open>The five cases of claim C7 on unit squares; the second, first and fourth are the
  examples of section 8 of the specification.\<close>

theorem comparePolygons_reading_order_witness:
  "comparePolygons [0, 0, 1, 0, 1, 1, 0, 1] [0, 2, 1, 2, 1, 3, 0, 3] = - 1 \<and>
   comparePolygons [0, 2, 1, 2, 1, 3, 0, 3] [0, 0, 1, 0, 1, 1, 0, 1] = 1 \<and>
   comparePolygons [0, 0, 1, 0, 1, 1, 0, 1] [2, 0, 3, 0, 3, 1, 2, 1] = - 2 \<and>
   comparePolygons [2, 0, 3, 0, 3, 1, 2, 1] [0, 0, 1, 0, 1, 1, 0, 1] = 2 \<and>
   comparePolygons [0, 0, 2, 0, 2, 2, 0, 2] [1, 1, 3, 1, 3, 3, 1, 3] = 0"
  using comparePolygons_reading_order[of "[0, 0, 1, 0, 1, 1, 0, 1]" "[0, 2, 1, 2, 1, 3, 0, 3]"]
    comparePolygons_reading_order[of "[0, 2, 1, 2, 1, 3, 0, 3]" "[0, 0, 1, 0, 1, 1, 0, 1]"]
    comparePolygons_reading_order[of "[0, 0, 1, 0, 1, 1, 0, 1]" "[2, 0, 3, 0, 3, 1, 2, 1]"]
    comparePolygons_reading_order[of "[2, 0, 3, 0, 3, 1, 2, 1]" "[0, 0, 1, 0, 1, 1, 0, 1]"]
    comparePolygons_reading_order[of "[0, 0, 2, 0, 2, 2, 0, 2]" "[1, 1, 3, 1, 3, 3, 1, 3]"]
  by simp

text \<open>
  Claim C5. Both searches return the empty list on an empty window (\<open>end = 0\<close> or
  \<open>start = end\<close>, so also on an empty sequence), and on a window inside the sequence
  when the query lies before every entry or after every entry. When the entries that
  compare negative relative to the query (they lie before it; the comparator, which is
  called with the query first, returns a positive sign for them) precede the entries
  that compare \<open>0\<close>, which precede the entries that compare positive relative to the
  query (they lie after it; the comparator returns a negative sign), as in a sequence in
  reading order, a search on any window inside the sequence that holds an entry
  comparing \<open>0\<close> returns exactly the entries comparing \<open>0\<close>, a contiguous slice of
  the sequence, whichever index is probed first; on a window that holds none it returns
  the empty list.
\<close>

theorem binarySearch_contract:
  fixes lines :: "Line list" and words :: "Word list"
  assumes "0 \<le> s" "s \<le> e" "e \<le> int (length lines)"
    and "0 \<le> s'" "s' \<le> e'" "e' \<le> int (length words)"
  shows
   "(e = 0 \<or> s = e \<longrightarrow> polygonBinarySearch lines s e poly = Some []) \<and>
    (e' = 0 \<or> s' = e' \<longrightarrow> offsetBinarySearch words s' e' r = Some []) \<and>
    ((\<forall>l\<in>set lines. lineSign poly l < 0) \<or> (\<forall>l\<in>set lines. lineSign poly l > 0) \<longrightarrow>
       polygonBinarySearch lines s e poly = Some []) \<and>
    ((\<forall>w\<in>set words. wordSign r w < 0) \<or> (\<forall>w\<in>set words. wordSign r w > 0) \<longrightarrow>
       offsetBinarySearch words s' e' r = Some []) \<and>
    (sorted (map (\<lambda>l. signRank (lineSign poly l)) lines) \<longrightarrow>
       polygonBinarySearch lines s e poly =
         Some (if \<exists>k. s \<le> k \<and> k < e \<and> lineSign poly (lines ! nat k) = 0
               then filter (\<lambda>l. lineSign poly l = 0) lines else []) \<and>
       (\<exists>i j. 0 \<le> i \<and> i \<le> j \<and> j \<le> int (length lines) \<and>
              filter (\<lambda>l. lineSign poly l = 0) lines = js_slice lines i j)) \<and>
    (sorted (map (\<lambda>w. signRank (wordSign r w)) words) \<longrightarrow>
       offsetBinarySearch words s' e' r =
         Some (if \<exists>k. s' \<le> k \<and> k < e' \<and> wordSign r (words ! nat k) = 0
               then filter (\<lambda>w. wordSign r w = 0) words else []) \<and>
       (\<exists>i j. 0 \<le> i \<and> i \<le> j \<and> j \<le> int (length words) \<and>
              filter (\<lambda>w. wordSign r w = 0) words = js_slice words i j))"
proof -
  note p = polygonBinarySearch_generic[OF assms(1-3), of poly]
  note q = offsetBinarySearch_generic[OF assms(4-6), of r]
  have 1: "e = 0 \<or> s = e \<longrightarrow> polygonBinarySearch lines s e poly = Some []"
    unfolding p by (simp add: binarySearch_empty_window)
  have 2: "e' = 0 \<or> s' = e' \<longrightarrow> offsetBinarySearch words s' e' r = Some []"
    unfolding q by (simp add: binarySearch_empty_window)
  have 3: "(\<forall>l\<in>set lines. lineSign poly l < 0) \<or> (\<forall>l\<in>set lines. lineSign poly l > 0) \<longrightarrow>
       polygonBinarySearch lines s e poly = Some []"
    unfolding p using binarySearch_outside[OF _ assms(1-3), of "lineSign poly"] by blast
  have 4: "(\<forall>w\<in>set words. wordSign r w < 0) \<or> (\<forall>w\<in>set words. wordSign r w > 0) \<longrightarrow>
       offsetBinarySearch words s' e' r = Some []"
    unfolding q using binarySearch_outside[OF _ assms(4-6), of "wordSign r"] by blast
  have 5: "sorted (map (\<lambda>l. signRank (lineSign poly l)) lines) \<longrightarrow>
       polygonBinarySearch lines s e poly =
         Some (if \<exists>k. s \<le> k \<and> k < e \<and> lineSign poly (lines ! nat k) = 0
               then filter (\<lambda>l. lineSign poly l = 0) lines else []) \<and>
       (\<exists>i j. 0 \<le> i \<and> i \<le> j \<and> j \<le> int (length lines) \<and>
              filter (\<lambda>l. lineSign poly l = 0) lines = js_slice lines i j)"
    unfolding p
    using binarySearch_sorted[OF _ assms(1-3), of "lineSign poly"]
      zeros_contiguous[of "lineSign poly" lines] by blast
  have 6: "sorted (map (\<lambda>w. signRank (wordSign r w)) words) \<longrightarrow>
       offsetBinarySearch words s' e' r =
         Some (if \<exists>k. s' \<le> k \<and> k < e' \<and> wordSign r (words ! nat k) = 0
               then filter (\<lambda>w. wordSign r w = 0) words else []) \<and>
       (\<exists>i j. 0 \<le> i \<and> i \<le> j \<and> j \<le> int (length words) \<and>
              filter (\<lambda>w. wordSign r w = 0) words = js_slice words i j)"
    unfolding q
    using binarySearch_sorted[OF _ assms(4-6), of "wordSign r"]
      zeros_contiguous[of "wordSign r" words] by blast
  from 1 2 3 4 5 6 show ?thesis by blast
qed

text \<open>The contract of claim C5 on three stacked lines and on the words of the unit
  test: a match, an empty window, and a query outside every entry, for either search.\<close>

theorem binarySearch_contract_witness:
  "polygonBinarySearch stackedLines 0 3 [1, 2, 2, 2, 2, 3, 1, 3] = Some [stackedLines ! 1] \<and>
   polygonBinarySearch stackedLines 2 2 [1, 2, 2, 2, 2, 3, 1, 3] = Some [] \<and>
   polygonBinarySearch stackedLines 0 3 [1, 6, 2, 6, 2, 7, 1, 7] = Some [] \<and>
   offsetBinarySearch testWords 0 8 (3, 14) = Some [testWords ! 1, testWords ! 2, testWords ! 3] \<and>
   offsetBinarySearch testWords 5 5 (3, 14) = Some [] \<and>
   offsetBinarySearch testWords 0 8 (40, 50) = Some []"
proof -
  let ?q = "[1, 2, 2, 2, 2, 3, 1, 3] :: polygon"
  let ?far = "[1, 6, 2, 6, 2, 7, 1, 7] :: polygon"
  have signs: "map (lineSign ?q) stackedLines = [1, 0, - 1]"
    "map (lineSign ?far) stackedLines = [1, 1, 1]"
    by (simp_all add: stackedLines_def lineSign_def comparePolygons_def js_at_def)
  have wsigns: "map (wordSign (3, 14)) testWords = [1, 0, 0, 0, - 1, - 1, - 1, - 1]"
    "map (wordSign (40, 50)) testWords = [1, 1, 1, 1, 1, 1, 1, 1]"
    by (simp_all add: testWords_def wordSign_def compareOffsets_def)
  have len: "int (length stackedLines) = 3" "int (length testWords) = 8"
    by (simp_all add: stackedLines_def testWords_def)
  have ex1: "\<exists>k. 0 \<le> k \<and> k < 3 \<and> lineSign ?q (stackedLines ! nat k) = 0"
    by (intro exI[of _ 1]) (simp add: stackedLines_def lineSign_def comparePolygons_def js_at_def)
  have ex2: "\<exists>k. 0 \<le> k \<and> k < 8 \<and> wordSign (3, 14) (testWords ! nat k) = 0"
    by (intro exI[of _ 1]) (simp add: testWords_def wordSign_def compareOffsets_def)
  have s1: "sorted (map (\<lambda>l. signRank (lineSign ?q l)) stackedLines)"
    by (simp add: stackedLines_def lineSign_def comparePolygons_def js_at_def signRank_def)
  have s2: "sorted (map (\<lambda>w. signRank (wordSign (3, 14) w)) testWords)"
    by (simp add: testWords_def wordSign_def compareOffsets_def signRank_def)
  have f1: "filter (\<lambda>l. lineSign ?q l = 0) stackedLines = [stackedLines ! 1]"
    by (simp add: stackedLines_def lineSign_def comparePolygons_def js_at_def)
  have f2: "filter (\<lambda>w. wordSign (3, 14) w = 0) testWords = [testWords ! 1, testWords ! 2, testWords ! 3]"
    by (simp add: testWords_def wordSign_def compareOffsets_def)
  have a1: "\<forall>l\<in>set stackedLines. lineSign ?far l > 0"
    by (simp add: stackedLines_def lineSign_def comparePolygons_def js_at_def)
  have a2: "\<forall>w\<in>set testWords. wordSign (40, 50) w > 0"
    by (simp add: testWords_def wordSign_def compareOffsets_def)
  from binarySearch_contract[of 0 3 stackedLines 0 8 testWords ?q "(3, 14)"] len s1 s2 ex1 ex2 f1 f2
  have A: "polygonBinarySearch stackedLines 0 3 ?q = Some [stackedLines ! 1]"
    "offsetBinarySearch testWords 0 8 (3, 14) = Some [testWords ! 1, testWords ! 2, testWords ! 3]"
    by simp_all
  from binarySearch_contract[of 2 2 stackedLines 5 5 testWords ?q "(3, 14)"] len
  have B: "polygonBinarySearch stackedLines 2 2 ?q = Some []"
    "offsetBinarySearch testWords 5 5 (3, 14) = Some []"
    by simp_all
  from binarySearch_contract[of 0 3 stackedLines 0 8 testWords ?far "(40, 50)"] len a1 a2
  have C: "polygonBinarySearch stackedLines 0 3 ?far = Some []"
    "offsetBinarySearch testWords 0 8 (40, 50) = Some []"
    by simp_all
  from A B C show ?thesis by simp
qed

text \<open>
  Claim C10. \<open>findTextFromBoundingRegions\<close> calls
  \<open>offsetBinarySearch(words, 0, words.length, [offsetStart, offsetEnd])\<close>, which compares
  the range with the start offset of each word only: on words sorted by start offset it
  returns exactly the words \<open>w\<close> with \<open>offsetStart \<le> w.span.offset \<le> offsetEnd\<close>, the
  bounds included. A word that starts before \<open>offsetStart\<close> is left out even when its
  span reaches into the range.
\<close>

theorem offsetBinarySearch_start_offsets:
  assumes "sorted (map (\<lambda>w. span_offset (word_span w)) words)"
  shows "offsetBinarySearch words 0 (int (length words)) (offsetStart, offsetEnd) =
           Some (filter (\<lambda>w. offsetStart \<le> span_offset (word_span w) \<and>
                              span_offset (word_span w) \<le> offsetEnd) words)"
proof -
  let ?r = "(offsetStart, offsetEnd)"
  have z: "(wordSign ?r w = 0) \<longleftrightarrow>
           (offsetStart \<le> span_offset (word_span w) \<and> span_offset (word_span w) \<le> offsetEnd)" for w
    by (auto simp: wordSign_def compareOffsets_def)
  have "offsetBinarySearch words 0 (int (length words)) ?r =
          binarySearch (wordSign ?r) words 0 (int (length words))"
    by (rule offsetBinarySearch_generic) auto
  also have "\<dots> = Some (if \<exists>k. 0 \<le> k \<and> k < int (length words) \<and> wordSign ?r (words ! nat k) = 0
                         then filter (\<lambda>w. wordSign ?r w = 0) words else [])"
    by (rule binarySearch_sorted[OF sorted_offsets_rank[OF assms]]) auto
  also have "\<dots> = Some (filter (\<lambda>w. wordSign ?r w = 0) words)"
  proof (cases "\<exists>k. 0 \<le> k \<and> k < int (length words) \<and> wordSign ?r (words ! nat k) = 0")
    case True
    then show ?thesis by simp
  next
    case False
    then have "\<forall>w\<in>set words. wordSign ?r w \<noteq> 0"
      by (metis in_set_conv_nth nat_int of_nat_0_le_iff of_nat_less_iff)
    then have "filter (\<lambda>w. wordSign ?r w = 0) words = []" by (simp add: filter_empty_conv)
    with False show ?thesis by simp
  qed
  finally show ?thesis by (simp add: z)
qed

text \<open>On the words of the unit test and the range \<open>[3, 14]\<close>: the word \<open>First\<close>
  (offset 0, length 5) reaches into the range and is left out; the word at offset 14 is
  kept.\<close>

theorem offsetBinarySearch_start_offsets_witness:
  "offsetBinarySearch testWords 0 8 (3, 14) = Some [testWords ! 1, testWords ! 2, testWords ! 3]"
  using offsetBinarySearch_start_offsets[of testWords 3 14]
  by (simp add: testWords_def)



section \<open>Claims about the columns\<close>

declare splitLoop.simps [simp del]

lemma js_slice_all: "js_slice xs 0 (int (length xs)) = xs"
  by (simp add: js_slice_def)

lemma splitLoop_done:
  "length lines \<le> k \<Longrightarrow> splitLoop adj combine lines k f cs = cs"
  by (subst splitLoop.simps) simp

lemma splitLoop_single_column:
  assumes adjacent_pairs:
    "\<And>i. i + 1 < length lines \<Longrightarrow>
       adj (line_polygon (lines ! (i + 1))) (line_polygon (lines ! i)) defaultDelta"
  shows "currentLine < length lines \<Longrightarrow>
         splitLoop adj combine lines currentLine 0 [] =
           [\<lparr>col_polygon = combine (map line_polygon lines), col_lines = lines\<rparr>]"
proof (induction "length lines - currentLine" arbitrary: currentLine)
  case 0
  then show ?case by simp
next
  case (Suc n)
  show ?case
  proof (cases "currentLine = length lines - 1")
    case True
    then have "int currentLine + 1 = int (length lines)" using Suc.prems by simp
    then have sl: "js_slice lines (int 0) (int currentLine + 1) = lines"
      by (simp add: js_slice_all)
    have "length lines \<le> currentLine + 1" using True by simp
    then have dn: "splitLoop adj combine lines (currentLine + 1) (currentLine + 1) cs = cs" for cs
      by (rule splitLoop_done)
    have "splitLoop adj combine lines currentLine 0 [] =
          (let colLines = js_slice lines (int 0) (int currentLine + 1);
               polygon = combine (map line_polygon colLines)
           in splitLoop adj combine lines (currentLine + 1) (currentLine + 1)
                ([] @ [\<lparr>col_polygon = polygon, col_lines = colLines\<rparr>]))"
      by (subst splitLoop.simps) (use True Suc.prems in simp)
    then show ?thesis
      unfolding sl Let_def dn by simp
  next
    case False
    then have lt: "currentLine + 1 < length lines" using Suc.prems by simp
    have "splitLoop adj combine lines currentLine 0 [] =
          splitLoop adj combine lines (currentLine + 1) 0 []"
      using False Suc.prems adjacent_pairs[OF lt] by (subst splitLoop.simps) simp
    also have "\<dots> = [\<lparr>col_polygon = combine (map line_polygon lines), col_lines = lines\<rparr>]"
      using Suc.hyps lt by (intro Suc.hyps(1)) auto
    finally show ?thesis .
  qed
qed

text \<open>
  Claim C6. On no lines \<open>splitIntoColumns\<close> returns one column with an empty polygon
  and no lines; on one line it returns one column with that line and its polygon; and on
  lines of which every consecutive pair is adjacent under the default delta it returns
  exactly one column holding all the lines in their order (its polygon, from two lines
  on, the combination of all the line polygons).
\<close>

theorem splitIntoColumns_single_column:
  "splitIntoColumns adj combine [] = [\<lparr>col_polygon = [], col_lines = []\<rparr>] \<and>
   splitIntoColumns adj combine [l] = [\<lparr>col_polygon = line_polygon l, col_lines = [l]\<rparr>] \<and>
   ((\<forall>i. i + 1 < length lines \<longrightarrow>
        adj (line_polygon (lines ! (i + 1))) (line_polygon (lines ! i)) defaultDelta) \<longrightarrow>
    (\<exists>p. splitIntoColumns adj combine lines = [\<lparr>col_polygon = p, col_lines = lines\<rparr>]) \<and>
    (2 \<le> length lines \<longrightarrow>
       splitIntoColumns adj combine lines =
         [\<lparr>col_polygon = combine (map line_polygon lines), col_lines = lines\<rparr>]))"
proof (intro conjI impI)
  show "splitIntoColumns adj combine [] = [\<lparr>col_polygon = [], col_lines = []\<rparr>]"
    by (simp add: splitIntoColumns_def)
  show "splitIntoColumns adj combine [l] = [\<lparr>col_polygon = line_polygon l, col_lines = [l]\<rparr>]"
    by (simp add: splitIntoColumns_def)
next
  assume a: "\<forall>i. i + 1 < length lines \<longrightarrow>
        adj (line_polygon (lines ! (i + 1))) (line_polygon (lines ! i)) defaultDelta"
  have many: "splitIntoColumns adj combine lines =
         [\<lparr>col_polygon = combine (map line_polygon lines), col_lines = lines\<rparr>]"
    if "2 \<le> length lines"
  proof -
    from that have ne: "length lines \<noteq> 0" "length lines \<noteq> 1" "0 < length lines" by auto
    have "splitLoop adj combine lines 0 0 [] =
           [\<lparr>col_polygon = combine (map line_polygon lines), col_lines = lines\<rparr>]"
      using a ne(3) by (intro splitLoop_single_column) auto
    with ne show ?thesis unfolding splitIntoColumns_def by simp
  qed
  show "\<exists>p. splitIntoColumns adj combine lines = [\<lparr>col_polygon = p, col_lines = lines\<rparr>]"
  proof -
    consider "length lines = 0" | "length lines = 1" | "2 \<le> length lines" by linarith
    then show ?thesis
    proof cases
      case 1
      then show ?thesis by (simp add: splitIntoColumns_def)
    next
      case 2
      then show ?thesis by (simp add: splitIntoColumns_def)
    next
      case 3
      with many show ?thesis by simp
    qed
  qed
  show "splitIntoColumns adj combine lines =
         [\<lparr>col_polygon = combine (map line_polygon lines), col_lines = lines\<rparr>]"
    if "2 \<le> length lines" using many that .
qed

text \<open>The two lines of the unit test share one polygon, so they are adjacent: one
  column, whose polygon is their union box.\<close>

theorem splitIntoColumns_single_column_witness:
  "splitIntoColumns adjacent unionBox testLines =
     [\<lparr>col_polygon = testPoly, col_lines = testLines\<rparr>]"
proof -
  have adj: "adjacent testPoly testPoly defaultDelta"
    by code_simp
  have a: "\<forall>i. i + 1 < length testLines \<longrightarrow>
        adjacent (line_polygon (testLines ! (i + 1))) (line_polygon (testLines ! i)) defaultDelta"
    using adj by (simp add: testLines_def)
  have u: "unionBox (map line_polygon testLines) = testPoly"
    by (simp add: unionBox_def testLines_def testPoly_def polygonize_def)
  have len: "2 \<le> length testLines" by (simp add: testLines_def)
  from splitIntoColumns_single_column[of adjacent unionBox _ testLines] a len u
  show ?thesis by simp
qed


section \<open>Claims about the stitching of head, body and tail\<close>

lemma js_at_8:
  "length p = 8 \<Longrightarrow> js_at p 1 = Some (p ! 1) \<and> js_at p 3 = Some (p ! 3) \<and>
     js_at p 5 = Some (p ! 5) \<and> js_at p 7 = Some (p ! 7) \<and> js_at p 0 = Some (p ! 0) \<and>
     js_at p 2 = Some (p ! 2) \<and> js_at p 4 = Some (p ! 4) \<and> js_at p 6 = Some (p ! 6)"
  by (simp add: js_at_def)

lemma convert_single:
  "convertCitationRegionsToBounds flat [\<lparr>crp_page = page, citationRegions = [RegionArray [pc]]\<rparr>] fo
     = Inr (polyCBounds flat fo page pc)"
  by simp

lemma polyCBounds_stitched:
  assumes wf: "\<forall>p. Some p \<in> {head pc, body pc, tail pc} \<longrightarrow> length p = 8"
  shows "polyCBounds flat True page pc =
      (case head pc of
         None \<Rightarrow> []
       | Some h \<Rightarrow>
           [\<lparr>bounds_pageNumber = page,
             bounds_polygon =
               (case (body pc, tail pc) of
                  (None, Some t) \<Rightarrow>
                    if max (h ! 5) (h ! 7) < min (t ! 1) (t ! 3)
                    then h[5 := min (t ! 1) (t ! 3), 7 := min (t ! 1) (t ! 3)] else h
                | _ \<Rightarrow> h)\<rparr>]) @
      (case body pc of
         None \<Rightarrow> []
       | Some b \<Rightarrow>
           [\<lparr>bounds_pageNumber = page,
             bounds_polygon =
               (let b1 = (case head pc of
                            None \<Rightarrow> b
                          | Some h \<Rightarrow>
                              if max (h ! 5) (h ! 7) < min (b ! 1) (b ! 3)
                              then b[1 := max (h ! 5) (h ! 7), 3 := max (h ! 5) (h ! 7)] else b)
                in (case tail pc of
                      None \<Rightarrow> b1
                    | Some t \<Rightarrow>
                        if max (b ! 5) (b ! 7) < min (t ! 1) (t ! 3)
                        then b1[5 := min (t ! 1) (t ! 3), 7 := min (t ! 1) (t ! 3)] else b1))\<rparr>]) @
      (case tail pc of
         None \<Rightarrow> []
       | Some t \<Rightarrow> [\<lparr>bounds_pageNumber = page, bounds_polygon = flat t\<rparr>])"
proof -
  have h8: "length h = 8" if "head pc = Some h" for h using wf that by auto
  have b8: "length b = 8" if "body pc = Some b" for b using wf that by auto
  have t8: "length t = 8" if "tail pc = Some t" for t using wf that by auto
  show ?thesis
    unfolding polyCBounds_def Let_def
    by (auto simp: js_at_8 h8 b8 t8 split: option.splits)
qed


lemma pageBounds_arrays:
  "pageBounds flat fo page (map RegionArray rs) =
     Inr (concat (map (\<lambda>r. concat (map (polyCBounds flat fo page) r)) rs))"
  by (induction rs) auto

lemma convert_arrays:
  "convertCitationRegionsToBounds flat
      (map (\<lambda>(page, rs). \<lparr>crp_page = page, citationRegions = map RegionArray rs\<rparr>) input) fo =
     Inr (concat (map (\<lambda>(page, rs).
            concat (map (\<lambda>r. concat (map (polyCBounds flat fo page) r)) rs)) input))"
  by (induction input) (auto simp: pageBounds_arrays)

text \<open>
  Claim C4. With \<open>forceOverlap\<close> true and eight-number polygons, the bounds emitted for
  one complex polygon are: the head, its bottom edge (entries 5 and 7) moved down to the
  tail's top edge exactly when the body is absent, the tail exists and the head's bottom
  lies above the tail's top, and unchanged otherwise; the body, its top edge (entries 1
  and 3) moved to the head's bottom only when the head's bottom lies above the body's
  top, and its bottom edge (entries 5 and 7) moved to the tail's top only when the
  body's bottom lies above the tail's top, an edge that already overlaps being left as it
  is; and the tail, unchanged but for \<open>flattenPolygon4\<close>.
\<close>

theorem convertCitationRegionsToBounds_forceOverlap:
  assumes "\<forall>p. Some p \<in> {head pc, body pc, tail pc} \<longrightarrow> length p = 8"
  shows "convertCitationRegionsToBounds flat
           [\<lparr>crp_page = page, citationRegions = [RegionArray [pc]]\<rparr>] True =
      Inr ((case head pc of
              None \<Rightarrow> []
            | Some h \<Rightarrow>
                [\<lparr>bounds_pageNumber = page,
                  bounds_polygon =
                    (case (body pc, tail pc) of
                       (None, Some t) \<Rightarrow>
                         if max (h ! 5) (h ! 7) < min (t ! 1) (t ! 3)
                         then h[5 := min (t ! 1) (t ! 3), 7 := min (t ! 1) (t ! 3)] else h
                     | _ \<Rightarrow> h)\<rparr>]) @
           (case body pc of
              None \<Rightarrow> []
            | Some b \<Rightarrow>
                [\<lparr>bounds_pageNumber = page,
                  bounds_polygon =
                    (let b1 = (case head pc of
                                 None \<Rightarrow> b
                               | Some h \<Rightarrow>
                                   if max (h ! 5) (h ! 7) < min (b ! 1) (b ! 3)
                                   then b[1 := max (h ! 5) (h ! 7), 3 := max (h ! 5) (h ! 7)] else b)
                     in (case tail pc of
                           None \<Rightarrow> b1
                         | Some t \<Rightarrow>
                             if max (b ! 5) (b ! 7) < min (t ! 1) (t ! 3)
                             then b1[5 := min (t ! 1) (t ! 3), 7 := min (t ! 1) (t ! 3)] else b1))\<rparr>]) @
           (case tail pc of
              None \<Rightarrow> []
            | Some t \<Rightarrow> [\<lparr>bounds_pageNumber = page, bounds_polygon = flat t\<rparr>]))"
  unfolding convert_single polyCBounds_stitched[OF assms] ..

text \<open>A head stretched down to the tail with no body between them; a body stretched
  to the head above and the tail below; and overlapping parts left as they are.\<close>

theorem convertCitationRegionsToBounds_forceOverlap_witness:
  "convertCitationRegionsToBounds id
     [\<lparr>crp_page = 1, citationRegions =
        [RegionArray [\<lparr>head = Some [3, 0, 5, 0, 5, 1, 3, 1], body = None,
                       tail = Some [0, 2, 2, 2, 2, 3, 0, 3]\<rparr>]]\<rparr>] True =
     Inr [\<lparr>bounds_pageNumber = 1, bounds_polygon = [3, 0, 5, 0, 5, 2, 3, 2]\<rparr>,
          \<lparr>bounds_pageNumber = 1, bounds_polygon = [0, 2, 2, 2, 2, 3, 0, 3]\<rparr>] \<and>
   convertCitationRegionsToBounds id
     [\<lparr>crp_page = 1, citationRegions =
        [RegionArray [\<lparr>head = Some [3, 0, 5, 0, 5, 1, 3, 1], body = Some [0, 2, 5, 2, 5, 3, 0, 3],
                       tail = Some [0, 4, 2, 4, 2, 5, 0, 5]\<rparr>]]\<rparr>] True =
     Inr [\<lparr>bounds_pageNumber = 1, bounds_polygon = [3, 0, 5, 0, 5, 1, 3, 1]\<rparr>,
          \<lparr>bounds_pageNumber = 1, bounds_polygon = [0, 1, 5, 1, 5, 4, 0, 4]\<rparr>,
          \<lparr>bounds_pageNumber = 1, bounds_polygon = [0, 4, 2, 4, 2, 5, 0, 5]\<rparr>] \<and>
   convertCitationRegionsToBounds id
     [\<lparr>crp_page = 1, citationRegions =
        [RegionArray [\<lparr>head = Some [3, 0, 5, 0, 5, 2, 3, 2], body = Some [0, 1, 5, 1, 5, 4, 0, 4],
                       tail = Some [0, 3, 2, 3, 2, 5, 0, 5]\<rparr>]]\<rparr>] True =
     Inr [\<lparr>bounds_pageNumber = 1, bounds_polygon = [3, 0, 5, 0, 5, 2, 3, 2]\<rparr>,
          \<lparr>bounds_pageNumber = 1, bounds_polygon = [0, 1, 5, 1, 5, 4, 0, 4]\<rparr>,
          \<lparr>bounds_pageNumber = 1, bounds_polygon = [0, 3, 2, 3, 2, 5, 0, 5]\<rparr>]"
  using convertCitationRegionsToBounds_forceOverlap[of
      "\<lparr>head = Some [3, 0, 5, 0, 5, 1, 3, 1], body = None, tail = Some [0, 2, 2, 2, 2, 3, 0, 3]\<rparr>" id 1]
    convertCitationRegionsToBounds_forceOverlap[of
      "\<lparr>head = Some [3, 0, 5, 0, 5, 1, 3, 1], body = Some [0, 2, 5, 2, 5, 3, 0, 3],
        tail = Some [0, 4, 2, 4, 2, 5, 0, 5]\<rparr>" id 1]
    convertCitationRegionsToBounds_forceOverlap[of
      "\<lparr>head = Some [3, 0, 5, 0, 5, 2, 3, 2], body = Some [0, 1, 5, 1, 5, 4, 0, 4],
        tail = Some [0, 3, 2, 3, 2, 5, 0, 5]\<rparr>" id 1]
  by (simp add: Let_def)


section \<open>Claims about the entry point from text to bounds\<close>

lemma map_push_nonempty: "map_push m page polygon \<noteq> []"
  by (cases m) (auto split: if_splits)

lemma groupByPage_nonempty: "m \<noteq> [] \<Longrightarrow> groupByPage ps m \<noteq> []"
  by (induction ps arbitrary: m) (auto simp: map_push_nonempty)

lemma map_push_values_nonempty:
  "\<forall>(k, vs)\<in>set m. vs \<noteq> [] \<Longrightarrow> \<forall>(k, vs)\<in>set (map_push m page polygon). vs \<noteq> []"
  by (induction m) (auto split: if_splits)

lemma groupByPage_values_nonempty:
  "\<forall>(k, vs)\<in>set m. vs \<noteq> [] \<Longrightarrow> \<forall>(k, vs)\<in>set (groupByPage ps m). vs \<noteq> []"
proof (induction ps arbitrary: m)
  case Nil
  then show ?case by simp
next
  case (Cons p ps)
  show ?case
    using Cons.IH[OF map_push_values_nonempty[OF Cons.prems]] by simp
qed

lemma convert_first_object:
  assumes "crs \<noteq> []" "\<forall>crp\<in>set crs. \<exists>pc rest. citationRegions crp = RegionObject pc # rest"
  shows "convertCitationRegionsToBounds flat crs fo = Inl TypeError"
proof (cases crs)
  case Nil
  with assms show ?thesis by simp
next
  case (Cons crp rest)
  with assms(2) obtain pc r where "citationRegions crp = RegionObject pc # r" by auto
  with Cons show ?thesis by simp
qed

text \<open>
  Through \<open>returnTextPolygonsFromDI\<close> each region handed to
  \<open>convertCitationRegionsToBounds\<close> is a \<open>PolygonC\<close> object, on which the inner
  \<open>for ... of\<close> throws: whenever the excerpt is not blank and has a fragment, the result
  is a \<open>TypeError\<close>, and whenever the function returns, it returns no bounds.
\<close>

lemma returnTextPolygonsFromDI_throws:
  assumes "\<not> js_blank (excerpt (locate text di))" "polygons (locate text di) \<noteq> []"
  shows "returnTextPolygonsFromDI locate flat text di = Inl TypeError"
proof -
  let ?m = "groupByPage (polygons (locate text di)) []"
  let ?results = "map (\<lambda>(page, regions).
        \<lparr>crp_page = page, citationRegions = map RegionObject regions\<rparr>) ?m"
  from assms(2) obtain p ps where ps: "polygons (locate text di) = p # ps"
    by (cases "polygons (locate text di)") auto
  have ne: "?m \<noteq> []"
    unfolding ps by (simp add: groupByPage_nonempty map_push_nonempty)
  have vals: "\<forall>(k, vs)\<in>set ?m. vs \<noteq> []"
    by (rule groupByPage_values_nonempty) simp
  have "length (sort_key crp_page ?results) = length ?m" by simp
  with ne have 1: "sort_key crp_page ?results \<noteq> []" by (metis length_0_conv)
  have 2: "\<forall>crp\<in>set (sort_key crp_page ?results).
             \<exists>pc rest. citationRegions crp = RegionObject pc # rest"
  proof
    fix crp assume "crp \<in> set (sort_key crp_page ?results)"
    then have "crp \<in> set ?results" by simp
    then obtain k vs where kv: "(k, vs) \<in> set ?m"
      "crp = \<lparr>crp_page = k, citationRegions = map RegionObject vs\<rparr>" by auto
    with vals have "vs \<noteq> []" by auto
    then obtain v vs' where "vs = v # vs'" by (cases vs) auto
    with kv(2) show "\<exists>pc rest. citationRegions crp = RegionObject pc # rest" by simp
  qed
  have ex: "excerpt (locate text di) \<noteq> []" using assms(1) by (auto simp: js_blank_def)
  show ?thesis
    unfolding returnTextPolygonsFromDI_def Let_def
    using assms(1) ex convert_first_object[OF 1 2] by simp
qed





text \<open>A located excerpt with one fragment, a head on page 1, ends in a \<open>TypeError\<close>.\<close>

lemma returnTextPolygonsFromDI_throws_example:
  "returnTextPolygonsFromDI
     (\<lambda>text di. \<lparr>excerpt = text,
        polygons = [\<lparr>pop_polygon = \<lparr>head = Some testPoly, body = None, tail = None\<rparr>, pop_page = 1\<rparr>]\<rparr>)
     id ''First'' \<lparr>pages = []\<rparr> = Inl TypeError"
  by (rule returnTextPolygonsFromDI_throws) (simp_all add: js_blank_def js_whitespace_def)


section \<open>Claims about the paragraph of a complex polygon\<close>

lemma set_add_set: "set (set_add s i) = insert i (set s)"
  by (auto simp: set_add_def)

lemma set_add_distinct: "distinct s \<Longrightarrow> distinct (set_add s i)"
  by (auto simp: set_add_def)

lemma scanRegions_set:
  "set (scanRegions adj osl polyC rs idx found) =
     set found \<union> {j. idx \<le> j \<and> j < idx + int (length rs) \<and>
                      regionMatches adj osl polyC (rs ! nat (j - idx))}"
proof (induction rs arbitrary: idx found)
  case Nil
  then show ?case by auto
next
  case (Cons r rs)
  have shift: "{j. idx + 1 \<le> j \<and> j < idx + 1 + int (length rs) \<and>
                   regionMatches adj osl polyC (rs ! nat (j - (idx + 1)))} =
               {j. idx < j \<and> j < idx + int (length (r # rs)) \<and>
                   regionMatches adj osl polyC ((r # rs) ! nat (j - idx))}"
  proof (intro Collect_cong)
    fix j
    show "(idx + 1 \<le> j \<and> j < idx + 1 + int (length rs) \<and>
            regionMatches adj osl polyC (rs ! nat (j - (idx + 1)))) =
          (idx < j \<and> j < idx + int (length (r # rs)) \<and>
            regionMatches adj osl polyC ((r # rs) ! nat (j - idx)))"
    proof (cases "idx < j")
      case True
      then have "nat (j - idx) = Suc (nat (j - (idx + 1)))" by simp
      with True show ?thesis by auto
    next
      case False
      then show ?thesis by auto
    qed
  qed
  have here: "{j. idx \<le> j \<and> j < idx + int (length (r # rs)) \<and>
                  regionMatches adj osl polyC ((r # rs) ! nat (j - idx))} =
              (if regionMatches adj osl polyC r then {idx} else {}) \<union>
              {j. idx < j \<and> j < idx + int (length (r # rs)) \<and>
                  regionMatches adj osl polyC ((r # rs) ! nat (j - idx))}"
  proof (intro set_eqI iffI)
    fix j
    assume "j \<in> {j. idx \<le> j \<and> j < idx + int (length (r # rs)) \<and>
                  regionMatches adj osl polyC ((r # rs) ! nat (j - idx))}"
    then show "j \<in> (if regionMatches adj osl polyC r then {idx} else {}) \<union>
              {j. idx < j \<and> j < idx + int (length (r # rs)) \<and>
                  regionMatches adj osl polyC ((r # rs) ! nat (j - idx))}"
      by (cases "j = idx") auto
  next
    fix j
    assume "j \<in> (if regionMatches adj osl polyC r then {idx} else {}) \<union>
              {j. idx < j \<and> j < idx + int (length (r # rs)) \<and>
                  regionMatches adj osl polyC ((r # rs) ! nat (j - idx))}"
    then show "j \<in> {j. idx \<le> j \<and> j < idx + int (length (r # rs)) \<and>
                  regionMatches adj osl polyC ((r # rs) ! nat (j - idx))}"
      by (auto split: if_splits)
  qed
  show ?case
    unfolding scanRegions.simps Cons.IH shift here
    by (auto simp: set_add_set)
qed

lemma scanRegions_distinct:
  "distinct found \<Longrightarrow> distinct (scanRegions adj osl polyC rs idx found)"
  by (induction rs arbitrary: idx found) (auto simp: set_add_distinct)

lemma pageMatches_regionMatches:
  "pageMatches adj osl polyC pg j \<longleftrightarrow>
     (pageNumber pg = pop_page polyC \<and>
      (case page_regions pg of
         None \<Rightarrow> False
       | Some rs \<Rightarrow> 0 \<le> j \<and> j < int (length rs) \<and>
           regionMatches adj osl (pop_polygon polyC) (rs ! nat j)))"
  by (auto simp: pageMatches_def regionMatches_def Let_def split: option.splits)

lemma scanPages_set:
  "set (scanPages adj osl polyC pgs found) =
     set found \<union> {j. \<exists>pg\<in>set pgs. pageMatches adj osl polyC pg j}"
proof (induction pgs arbitrary: found)
  case Nil
  then show ?case by simp
next
  case (Cons pg pgs)
  show ?case
    unfolding scanPages.simps Cons.IH
    by (auto simp: scanRegions_set pageMatches_regionMatches split: option.splits)
qed

lemma scanPages_distinct:
  "distinct found \<Longrightarrow> distinct (scanPages adj osl polyC pgs found)"
  by (induction pgs arbitrary: found) (auto simp: scanRegions_distinct split: option.splits)

lemma singleton_list_iff:
  "distinct xs \<Longrightarrow> (\<not> length xs > 1 \<and> \<not> length xs \<le> 0 \<and> xs ! 0 = i) \<longleftrightarrow> set xs = {i}"
proof (cases xs)
  case Nil
  then show ?thesis by simp
next
  case (Cons x ys)
  assume d: "distinct xs"
  show ?thesis
  proof (cases ys)
    case Nil
    with Cons show ?thesis by auto
  next
    case (Cons y zs)
    with \<open>xs = x # ys\<close> d have "x \<noteq> y" "x \<in> set xs" "y \<in> set xs" by auto
    then have "set xs \<noteq> {i}" by auto
    with Cons \<open>xs = x # ys\<close> show ?thesis by simp
  qed
qed

text \<open>
  Claim C1, as amended. \<open>findParagraphFromBoundingPolygonC\<close> collects into a set the
  indices of all regions of the named page for which some present part (head, body or
  tail) of the complex polygon satisfies \<open>onSameLine\<close> with fraction \<open>0.9\<close> and
  \<open>adjacent\<close> with delta \<open>0.1\<close> against the region polygon, and it returns an index
  exactly when that index is the only member of the set: with no match or with more than
  one (both only logged) it returns nothing.
\<close>

theorem findParagraphFromBoundingPolygonC_unique:
  "set (scanPages adj osl polyC (pages response) []) =
     {j. \<exists>pg\<in>set (pages response). pageMatches adj osl polyC pg j} \<and>
   (findParagraphFromBoundingPolygonC adj osl response polyC = Some i \<longleftrightarrow>
     {j. \<exists>pg\<in>set (pages response). pageMatches adj osl polyC pg j} = {i})"
proof -
  let ?found = "scanPages adj osl polyC (pages response) []"
  have s: "set ?found = {j. \<exists>pg\<in>set (pages response). pageMatches adj osl polyC pg j}"
    by (simp add: scanPages_set)
  have d: "distinct ?found" by (simp add: scanPages_distinct)
  have "findParagraphFromBoundingPolygonC adj osl response polyC = Some i \<longleftrightarrow>
        (\<not> length ?found > 1 \<and> \<not> length ?found \<le> 0 \<and> ?found ! 0 = i)"
    by (auto simp: findParagraphFromBoundingPolygonC_def Let_def)
  also have "\<dots> \<longleftrightarrow> set ?found = {i}" by (rule singleton_list_iff[OF d])
  finally show ?thesis using s by simp
qed


text \<open>The paragraph of the unit test's page, selected by its own polygon, is the one
  match.\<close>

theorem findParagraphFromBoundingPolygonC_unique_witness:
  "findParagraphFromBoundingPolygonC adjacent onSameLine testDoc selectionOfTestPage = Some 0"
proof -
  have m: "onSameLine testPoly testPoly (9 / 10) \<and> adjacent testPoly testPoly (1 / 10)"
    by code_simp
  have "{j. \<exists>pg\<in>set (pages testDoc). pageMatches adjacent onSameLine selectionOfTestPage pg j} = {0}"
    using m by (auto simp: pageMatches_def testDoc_def testPage_def testRegion_def
        selectionOfTestPage_def)
  with findParagraphFromBoundingPolygonC_unique[of adjacent onSameLine selectionOfTestPage testDoc 0]
  show ?thesis by simp
qed

text \<open>
  Claim C1 as first stated has the first match returned when several regions match. A
  selection box over two paragraphs finds the regions \<open>0\<close> and \<open>1\<close>, in that order,
  and the function returns nothing, not \<open>0\<close>.
\<close>

theorem findParagraphFromBoundingPolygonC_first_counterexample:
  "scanPages adjacent onSameLine selectionOverBoth (pages twoParagraphDoc) [] = [0, 1] \<and>
   findParagraphFromBoundingPolygonC adjacent onSameLine twoParagraphDoc selectionOverBoth = None"
proof -
  have m: "onSameLine [0, 0, 5, 0, 5, 2, 0, 2] [0, 0, 5, 0, 5, 1, 0, 1] (9 / 10)"
    "adjacent [0, 0, 5, 0, 5, 2, 0, 2] [0, 0, 5, 0, 5, 1, 0, 1] (1 / 10)"
    "onSameLine [0, 0, 5, 0, 5, 2, 0, 2] [0, 1, 5, 1, 5, 2, 0, 2] (9 / 10)"
    "adjacent [0, 0, 5, 0, 5, 2, 0, 2] [0, 1, 5, 1, 5, 2, 0, 2] (1 / 10)"
    by code_simp+
  have f: "scanPages adjacent onSameLine selectionOverBoth (pages twoParagraphDoc) [] = [0, 1]"
    using m by (simp add: twoParagraphDoc_def selectionOverBoth_def regionMatches_def set_add_def)
  then show ?thesis
    by (simp add: findParagraphFromBoundingPolygonC_def)
qed


section \<open>Claims about the words of a complex polygon\<close>

lemma pushMatchingWords_filter:
  "pushMatchingWords adj osl polyC ws acc = acc @ filter (wordMatches adj osl polyC) ws"
  by (induction ws arbitrary: acc) auto

lemma js_slice_inclusive:
  assumes "0 \<le> a" "- 1 \<le> b" "b < int (length xs)"
  shows "js_slice xs a (b + 1) = map (\<lambda>i. xs ! nat i) [a..b]"
proof (cases "a \<le> b")
  case False
  then have "[a..b] = []" by simp
  moreover have "js_slice xs a (b + 1) = []"
    using False assms by (auto simp: js_slice_def Let_def min_def)
  ultimately show ?thesis by simp
next
  case True
  have sl: "js_slice xs a (b + 1) = take (nat (b + 1 - a)) (drop (nat a) xs)"
    using True assms by (intro js_slice_nonneg) auto
  show ?thesis
  proof (rule nth_equalityI)
    show "length (js_slice xs a (b + 1)) = length (map (\<lambda>i. xs ! nat i) [a..b])"
      using True assms unfolding sl by auto
  next
    fix k assume "k < length (js_slice xs a (b + 1))"
    then have k: "k < nat (b + 1 - a)" unfolding sl by simp
    then have "[a..b] ! k = a + int k" by (intro nth_upto) auto
    moreover have "take (nat (b + 1 - a)) (drop (nat a) xs) ! k = xs ! (nat a + k)"
      using k assms by simp
    moreover have "nat (a + int k) = nat a + k" using assms(1) by (simp add: nat_add_distrib)
    ultimately show "js_slice xs a (b + 1) ! k = map (\<lambda>i. xs ! nat i) [a..b] ! k"
      unfolding sl using k True by simp
  qed
qed

text \<open>
  Claim C3. For a page that exists, a resolved paragraph index with its region, and word
  indices \<open>(a, b)\<close> that are positions of the page's words (\<open>0 \<le> a\<close>, \<open>b\<close> below the
  number of words; \<open>b = a - 1\<close> or less gives no candidate), \<open>findTextFromPolygonC\<close>
  takes as candidates exactly \<open>words[a], ..., words[b]\<close>, keeps a candidate if and only
  if it is adjacent to some present part of the complex polygon (delta \<open>-0.05\<close> for head
  and tail, \<open>-0.1\<close> for body) and on the same line as that part (fraction \<open>0.9\<close>), and
  returns the contents of the kept words, in their order, joined by single spaces.
\<close>

theorem findTextFromPolygonC_words:
  assumes "js_at (pages response) (pop_page pc - 1) = Some pg"
    and "page_regions pg = Some rs"
    and "js_at rs paragraph = Some region"
    and "0 \<le> fst (wordIndices region)"
    and "- 1 \<le> snd (wordIndices region)"
    and "snd (wordIndices region) < int (length (page_words pg))"
  shows "findTextFromPolygonC adj osl response pc (Some paragraph) =
     Inr (js_join '' ''
       (map word_content
         (filter
            (\<lambda>w. (case head (pop_polygon pc) of
                     None \<Rightarrow> False
                   | Some h \<Rightarrow> adj (word_polygon w) h (- (5 / 100)) \<and>
                               osl (word_polygon w) h (9 / 10)) \<or>
                 (case body (pop_polygon pc) of
                     None \<Rightarrow> False
                   | Some b \<Rightarrow> adj (word_polygon w) b (- (1 / 10)) \<and>
                               osl (word_polygon w) b (9 / 10)) \<or>
                 (case tail (pop_polygon pc) of
                     None \<Rightarrow> False
                   | Some t \<Rightarrow> adj (word_polygon w) t (- (5 / 100)) \<and>
                               osl (word_polygon w) t (9 / 10)))
            (map (\<lambda>i. page_words pg ! nat i)
                 [fst (wordIndices region) .. snd (wordIndices region)]))))"
proof -
  have "wordMatches adj osl (pop_polygon pc) =
        (\<lambda>w. (case head (pop_polygon pc) of
                     None \<Rightarrow> False
                   | Some h \<Rightarrow> adj (word_polygon w) h (- (5 / 100)) \<and>
                               osl (word_polygon w) h (9 / 10)) \<or>
                 (case body (pop_polygon pc) of
                     None \<Rightarrow> False
                   | Some b \<Rightarrow> adj (word_polygon w) b (- (1 / 10)) \<and>
                               osl (word_polygon w) b (9 / 10)) \<or>
                 (case tail (pop_polygon pc) of
                     None \<Rightarrow> False
                   | Some t \<Rightarrow> adj (word_polygon w) t (- (5 / 100)) \<and>
                               osl (word_polygon w) t (9 / 10)))"
    by (rule ext) (simp add: wordMatches_def)
  then show ?thesis
    using assms
    by (simp add: findTextFromPolygonC_def Let_def pushMatchingWords_filter
        js_slice_inclusive[OF assms(4,5,6)])
qed

text \<open>Selecting the whole paragraph of the unit test's page gives its eight words.\<close>

theorem findTextFromPolygonC_words_witness:
  "findTextFromPolygonC adjacent onSameLine testDoc selectionOfTestPage (Some 0) =
     Inr ''First line of text, second line of text''"
proof -
  have m: "adjacent testPoly testPoly (- (5 / 100)) \<and> onSameLine testPoly testPoly (9 / 10)"
    by code_simp
  have up: "[0..7] = [0, 1, 2, 3, 4, 5, 6, 7::int]" by code_simp
  from findTextFromPolygonC_words[of testDoc selectionOfTestPage testPage "[testRegion]" 0
      testRegion adjacent onSameLine]
  show ?thesis
    using m
    by (simp add: testDoc_def testPage_def testRegion_def selectionOfTestPage_def js_at_def
        testWords_def up)
qed


section \<open>Claims about the outcomes when nothing is found\<close>

lemma set_js_slice: "set (js_slice xs a b) \<subseteq> set xs"
  unfolding js_slice_def Let_def
  by (meson set_take_subset set_drop_subset subset_trans)

lemma binarySearch_returns:
  "0 \<le> s \<Longrightarrow> s \<le> e \<Longrightarrow> e \<le> int (length xs) \<Longrightarrow>
   \<exists>r. binarySearch cmp xs s e = Some r \<and> set r \<subseteq> set xs"
proof (induction "nat (e - s)" arbitrary: s e rule: less_induct)
  case less
  show ?case
  proof (cases "e = 0 \<or> s = e")
    case True
    then show ?thesis by (subst binarySearch.simps) auto
  next
    case False
    define axis where "axis = (e - s) div 2 + s"
    have ax: "s \<le> axis" "axis < e" using False less.prems by (auto simp: axis_def)
    then have ax0: "0 \<le> axis" "axis < int (length xs)" using less.prems by auto
    then have at: "js_at xs axis = Some (xs ! nat axis)" by (simp add: js_at_Some)
    consider (neg) "cmp (xs ! nat axis) < 0" | (zero) "cmp (xs ! nat axis) = 0"
      | (pos) "cmp (xs ! nat axis) > 0" by linarith
    then show ?thesis
    proof cases
      case neg
      have step: "binarySearch cmp xs s e = binarySearch cmp xs s axis"
        using False at neg by (subst binarySearch.simps) (simp add: axis_def Let_def)
      have "\<exists>r. binarySearch cmp xs s axis = Some r \<and> set r \<subseteq> set xs"
        using ax ax0 less.prems by (intro less.hyps) auto
      with step show ?thesis by simp
    next
      case pos
      have step: "binarySearch cmp xs s e = binarySearch cmp xs (axis + 1) e"
        using False at pos by (subst binarySearch.simps) (simp add: axis_def Let_def)
      have "\<exists>r. binarySearch cmp xs (axis + 1) e = Some r \<and> set r \<subseteq> set xs"
        using ax ax0 less.prems by (intro less.hyps) auto
      with step show ?thesis by simp
    next
      case zero
      from first_run[of axis xs cmp] ax0 obtain f where
        f: "firstIntersectionIndex cmp xs axis = Some f" by auto
      from last_run[of axis xs cmp] ax0 obtain l where
        l: "lastIntersectionIndex cmp xs axis = Some l" by auto
      have "binarySearch cmp xs s e = Some (js_slice xs f (l + 1))"
        using False at zero f l by (subst binarySearch.simps) (simp add: axis_def Let_def)
      then show ?thesis by (simp add: set_js_slice)
    qed
  qed
qed

lemma polygonBinarySearch_returns:
  "\<exists>r. polygonBinarySearch lines 0 (int (length lines)) poly = Some r \<and> set r \<subseteq> set lines"
  using binarySearch_returns[of 0 "int (length lines)" lines "lineSign poly"]
    polygonBinarySearch_generic[of 0 "int (length lines)" lines poly]
  by simp

lemma offsetBinarySearch_returns:
  "\<exists>r. offsetBinarySearch words 0 (int (length words)) r0 = Some r"
  using binarySearch_returns[of 0 "int (length words)" words "wordSign r0"]
    offsetBinarySearch_generic[of 0 "int (length words)" words r0]
  by auto

lemma splitLoop_lines:
  "\<forall>col\<in>set cols. set (col_lines col) \<subseteq> set lines \<Longrightarrow>
   \<forall>col\<in>set (splitLoop adj combine lines k f cols). set (col_lines col) \<subseteq> set lines"
proof (induction adj combine lines k f cols rule: splitLoop.induct)
  case (1 adj combine lines currentLine firstLineOfCol cols)
  show ?case
  proof (cases "currentLine < length lines")
    case False
    then show ?thesis using "1.prems" by (subst splitLoop.simps) simp
  next
    case True
    show ?thesis
    proof (cases "currentLine = length lines - 1 \<or>
               \<not> adj (line_polygon (lines ! (currentLine + 1)))
                     (line_polygon (lines ! currentLine)) defaultDelta")
      case c: True
      have "\<forall>col\<in>set (splitLoop adj combine lines (currentLine + 1) (currentLine + 1)
              (cols @ [\<lparr>col_polygon = combine (map line_polygon
                           (js_slice lines (int firstLineOfCol) (int currentLine + 1))),
                        col_lines = js_slice lines (int firstLineOfCol) (int currentLine + 1)\<rparr>])).
              set (col_lines col) \<subseteq> set lines"
        using "1.prems" by (intro "1.IH"(1)[OF True c refl refl]) (auto simp: set_js_slice)
      then show ?thesis
        using True c by (subst splitLoop.simps) (simp add: Let_def)
    next
      case c: False
      have "\<forall>col\<in>set (splitLoop adj combine lines (currentLine + 1) firstLineOfCol cols).
              set (col_lines col) \<subseteq> set lines"
        using "1.prems" by (intro "1.IH"(2)[OF True c])
      then show ?thesis
        using True c by (subst splitLoop.simps) simp
    qed
  qed
qed

lemma splitIntoColumns_lines:
  "\<forall>col\<in>set (splitIntoColumns adj combine lines). set (col_lines col) \<subseteq> set lines"
  unfolding splitIntoColumns_def using splitLoop_lines[of "[]" lines adj combine 0 0]
  by auto

lemma searchColumns_returns:
  "\<exists>r. searchColumns cols poly acc = Inr r \<and>
       set r \<subseteq> set acc \<union> (\<Union>col\<in>set cols. set (col_lines col))"
proof (induction cols arbitrary: acc)
  case Nil
  then show ?case by simp
next
  case (Cons col cols)
  from polygonBinarySearch_returns[of "col_lines col" poly] obtain found where
    f: "polygonBinarySearch (col_lines col) 0 (int (length (col_lines col))) poly = Some found"
       "set found \<subseteq> set (col_lines col)" by auto
  from Cons.IH[of "acc @ found"] obtain r where
    r: "searchColumns cols poly (acc @ found) = Inr r"
       "set r \<subseteq> set (acc @ found) \<union> (\<Union>col\<in>set cols. set (col_lines col))" by auto
  from f r show ?case by auto
qed

lemma collectExcerptWords_returns:
  "pagesReadable response bounds \<Longrightarrow>
   \<exists>ws. collectExcerptWords adj combine response bounds acc = Inr ws"
proof (induction bounds arbitrary: acc)
  case Nil
  then show ?case by simp
next
  case (Cons bound rest)
  from Cons.prems obtain page where
    pg: "js_at (pages response) (bounds_pageNumber bound - 1) = Some page"
        "\<forall>l\<in>set (page_lines page). line_spans l \<noteq> []"
    and rest: "pagesReadable response rest"
    by (auto simp: pagesReadable_def list_all_iff split: option.splits)
  let ?cols = "getRelevantColumns (splitIntoColumns adj combine (page_lines page)) (bounds_polygon bound)"
  from searchColumns_returns[of ?cols "bounds_polygon bound" "[]"] obtain ls where
    ls: "searchColumns ?cols (bounds_polygon bound) [] = Inr ls"
        "set ls \<subseteq> (\<Union>col\<in>set ?cols. set (col_lines col))" by auto
  have sub: "set ls \<subseteq> set (page_lines page)"
    using ls(2) splitIntoColumns_lines[of adj combine "page_lines page"]
    by (auto simp: getRelevantColumns_def)
  show ?case
  proof (cases "length ls = 0")
    case True
    with pg ls Cons.IH[OF rest] show ?thesis by (simp add: Let_def)
  next
    case False
    then have "ls ! 0 \<in> set ls" "ls ! (length ls - 1) \<in> set ls" by auto
    with sub pg(2) have "line_spans (ls ! 0) \<noteq> []" "line_spans (ls ! (length ls - 1)) \<noteq> []"
      by auto
    then obtain s1 s2 where
      sp: "js_at (line_spans (ls ! 0)) 0 = Some s1"
          "js_at (line_spans (ls ! (length ls - 1))) 0 = Some s2"
      by (auto simp: js_at_def)
    from offsetBinarySearch_returns[of "page_words page" "(span_offset s1, span_offset s2 + span_length s2)"]
    obtain ws where ws: "offsetBinarySearch (page_words page) 0 (int (length (page_words page)))
         (span_offset s1, span_offset s2 + span_length s2) = Some ws" by auto
    from False pg ls sp ws Cons.IH[OF rest] show ?thesis by (simp add: Let_def)
  qed
qed

text \<open>
  Claim C2, as amended. When the excerpt located for the text is empty or blank,
  \<open>returnTextPolygonsFromDI\<close> returns an empty array of bounds. When the page of every
  bound exists and each of its lines has a first span, \<open>findTextFromBoundingRegions\<close>
  does not throw and never returns the empty string: when no words match it returns the
  text \<open>could not find matching line(s)\<close>. (What \<open>findUserSelection\<close> does on a
  selection that matches no paragraph region is left out of the amended claim.)
\<close>

theorem notFound_outcomes:
  "(js_blank (excerpt (locate text di)) \<longrightarrow>
      returnTextPolygonsFromDI locate flat text di = Inr []) \<and>
   (pagesReadable response bounds \<longrightarrow>
      (\<exists>ws. collectExcerptWords adj combine response bounds [] = Inr ws \<and>
            (ws = [] \<longrightarrow>
               findTextFromBoundingRegions adj combine response bounds =
                 Inr ''could not find matching line(s)'')) \<and>
      (\<exists>s. findTextFromBoundingRegions adj combine response bounds = Inr s \<and> s \<noteq> []))"
proof (intro conjI impI)
  assume "js_blank (excerpt (locate text di))"
  then show "returnTextPolygonsFromDI locate flat text di = Inr []"
    by (simp add: returnTextPolygonsFromDI_def Let_def)
next
  assume r: "pagesReadable response bounds"
  from collectExcerptWords_returns[OF r, of adj combine "[]"] obtain ws where
    ws: "collectExcerptWords adj combine response bounds [] = Inr ws" by auto
  then show "\<exists>ws. collectExcerptWords adj combine response bounds [] = Inr ws \<and>
            (ws = [] \<longrightarrow>
               findTextFromBoundingRegions adj combine response bounds =
                 Inr ''could not find matching line(s)'')"
    by (auto simp: findTextFromBoundingRegions_def)
  show "\<exists>s. findTextFromBoundingRegions adj combine response bounds = Inr s \<and> s \<noteq> []"
  proof (cases "js_join '' '' (map word_content ws) = []")
    case True
    with ws show ?thesis by (simp add: findTextFromBoundingRegions_def Let_def)
  next
    case False
    with ws show ?thesis by (simp add: findTextFromBoundingRegions_def Let_def)
  qed
qed


section \<open>Claims about the selection rectangles\<close>

lemma length8_cases:
  assumes "length (p :: 'a list) = 8"
  obtains a0 a1 a2 a3 a4 a5 a6 a7 where "p = [a0, a1, a2, a3, a4, a5, a6, a7]"
proof -
  from assms obtain a0 p1 where 0: "p = a0 # p1" "length p1 = 7" by (cases p) auto
  then obtain a1 p2 where 1: "p1 = a1 # p2" "length p2 = 6" by (cases p1) auto
  then obtain a2 p3 where 2: "p2 = a2 # p3" "length p3 = 5" by (cases p2) auto
  then obtain a3 p4 where 3: "p3 = a3 # p4" "length p4 = 4" by (cases p3) auto
  then obtain a4 p5 where 4: "p4 = a4 # p5" "length p5 = 3" by (cases p4) auto
  then obtain a5 p6 where 5: "p5 = a5 # p6" "length p6 = 2" by (cases p5) auto
  then obtain a6 p7 where 6: "p6 = a6 # p7" "length p7 = 1" by (cases p6) auto
  then obtain a7 where 7: "p7 = [a7]" by (cases p7) auto
  from 0 1 2 3 4 5 6 7 that show thesis by simp
qed

lemma toInches_eight:
  assumes "length p = 8"
  shows "toInches fl dx dy p =
     Some [toInch fl dx (p ! 0), toInch fl dy (p ! 1), toInch fl dx (p ! 2), toInch fl dy (p ! 3),
           toInch fl dx (p ! 4), toInch fl dy (p ! 5), toInch fl dx (p ! 6), toInch fl dy (p ! 7)]"
proof -
  from assms obtain a0 a1 a2 a3 a4 a5 a6 a7 where p: "p = [a0, a1, a2, a3, a4, a5, a6, a7]"
    by (rule length8_cases)
  show ?thesis
    unfolding p toInches_def adjustEntry_def by (simp add: js_at_def)
qed

lemma collectSelectionPolygons_filter:
  "collectSelectionPolygons fl toP4 rects acc =
     acc @ map (\<lambda>rect. toP4 (rectCoords fl rect)) (filter (\<lambda>rect. rect_width rect > 0) rects)"
  by (induction rects arbitrary: acc) auto

lemma toInchesAll_map:
  "\<forall>p\<in>set ps. length p = 8 \<Longrightarrow>
   toInchesAll fl dx dy ps =
     Some (map (\<lambda>p. [toInch fl dx (p ! 0), toInch fl dy (p ! 1), toInch fl dx (p ! 2),
                      toInch fl dy (p ! 3), toInch fl dx (p ! 4), toInch fl dy (p ! 5),
                      toInch fl dx (p ! 6), toInch fl dy (p ! 7)]) ps)"
  by (induction ps) (auto simp: toInches_eight)

text \<open>
  Claim C8. In \<open>findUserSelection\<close> the screen rectangles with \<open>width > 0\<close>, and only
  those, become page-space polygons, in their order; when \<open>toPolygon4\<close> gives eight
  numbers, each entry at an odd position (a y-coordinate) becomes
  \<open>round((y - dy) / 72, 4)\<close> and each entry at an even position (an x-coordinate)
  \<open>round((x - dx) / 72, 4)\<close>, computed as the source computes them (\<open>toInch\<close>: double
  subtraction, double division, then \<open>round\<close>); and when \<open>toPolygon4\<close> returns the
  corner list unchanged, these are the converted corners of the rectangle. This holds
  for every rounding \<open>fl\<close> of the double operations.
\<close>

theorem selectionPolygonsInInches_rounded:
  assumes "\<forall>rect\<in>set selectionRects. length (toP4 (rectCoords fl rect)) = 8"
  shows "selectionPolygonsInInches fl toP4 dx dy selectionRects =
     Some (map (\<lambda>rect.
                 let p = toP4 (rectCoords fl rect)
                 in [toInch fl dx (p ! 0), toInch fl dy (p ! 1),
                     toInch fl dx (p ! 2), toInch fl dy (p ! 3),
                     toInch fl dx (p ! 4), toInch fl dy (p ! 5),
                     toInch fl dx (p ! 6), toInch fl dy (p ! 7)])
               (filter (\<lambda>rect. rect_width rect > 0) selectionRects)) \<and>
    ((\<forall>rect\<in>set selectionRects. toP4 (rectCoords fl rect) = rectCoords fl rect) \<longrightarrow>
     selectionPolygonsInInches fl toP4 dx dy selectionRects =
     Some (map (\<lambda>rect.
                 [toInch fl dx (rect_x rect),
                  toInch fl dy (rect_y rect),
                  toInch fl dx (fl (rect_x rect + rect_width rect)),
                  toInch fl dy (rect_y rect),
                  toInch fl dx (fl (rect_x rect + rect_width rect)),
                  toInch fl dy (fl (rect_y rect + rect_height rect)),
                  toInch fl dx (rect_x rect),
                  toInch fl dy (fl (rect_y rect + rect_height rect))])
               (filter (\<lambda>rect. rect_width rect > 0) selectionRects))) \<and>
    toInch fl d v =
      (let multiplier = fl (10 ^ 4)
       in fl (of_int \<lfloor>fl (fl (fl (v - d) / 72) * multiplier) + 1 / 2\<rfloor> / multiplier))"
proof -
  have 8: "\<forall>p\<in>set (map (\<lambda>rect. toP4 (rectCoords fl rect))
                   (filter (\<lambda>rect. rect_width rect > 0) selectionRects)). length p = 8"
    using assms by auto
  have main: "selectionPolygonsInInches fl toP4 dx dy selectionRects =
     Some (map (\<lambda>rect.
                 let p = toP4 (rectCoords fl rect)
                 in [toInch fl dx (p ! 0), toInch fl dy (p ! 1),
                     toInch fl dx (p ! 2), toInch fl dy (p ! 3),
                     toInch fl dx (p ! 4), toInch fl dy (p ! 5),
                     toInch fl dx (p ! 6), toInch fl dy (p ! 7)])
               (filter (\<lambda>rect. rect_width rect > 0) selectionRects))"
    unfolding selectionPolygonsInInches_def collectSelectionPolygons_filter
    by (simp add: toInchesAll_map[OF 8] Let_def comp_def)
  have corners: "selectionPolygonsInInches fl toP4 dx dy selectionRects =
     Some (map (\<lambda>rect.
                 [toInch fl dx (rect_x rect),
                  toInch fl dy (rect_y rect),
                  toInch fl dx (fl (rect_x rect + rect_width rect)),
                  toInch fl dy (rect_y rect),
                  toInch fl dx (fl (rect_x rect + rect_width rect)),
                  toInch fl dy (fl (rect_y rect + rect_height rect)),
                  toInch fl dx (rect_x rect),
                  toInch fl dy (fl (rect_y rect + rect_height rect))])
               (filter (\<lambda>rect. rect_width rect > 0) selectionRects))"
    if idt: "\<forall>rect\<in>set selectionRects. toP4 (rectCoords fl rect) = rectCoords fl rect"
    unfolding main using idt by (auto simp: Let_def rectCoords_def)
  have unfolded: "toInch fl d v =
      (let multiplier = fl (10 ^ 4)
       in fl (of_int \<lfloor>fl (fl (fl (v - d) / 72) * multiplier) + 1 / 2\<rfloor> / multiplier))"
    by (simp add: toInch_def round_to_def)
  from main corners unfolded show ?thesis by blast
qed

text \<open>With exact operations (\<open>fl\<close> the identity), \<open>dx = 10\<close> and \<open>dy = 20\<close>: the
  rectangle at \<open>(110, 120)\<close> of width 50 and height 12 becomes the polygon of corners
  \<open>100/72, 150/72, 112/72\<close> rounded to four decimals; the rectangle of width 0 is
  dropped.\<close>

theorem selectionPolygonsInInches_rounded_witness:
  "selectionPolygonsInInches id id 10 20
     [\<lparr>rect_x = 110, rect_y = 120, rect_width = 50, rect_height = 12\<rparr>,
      \<lparr>rect_x = 110, rect_y = 132, rect_width = 0, rect_height = 12\<rparr>] =
   Some [[13889 / 10000, 13889 / 10000, 20833 / 10000, 13889 / 10000,
          20833 / 10000, 15556 / 10000, 13889 / 10000, 15556 / 10000]]"
proof -
  have r: "toInch id 10 110 = 13889 / 10000" "toInch id 10 160 = 20833 / 10000"
    "toInch id 20 120 = 13889 / 10000" "toInch id 20 132 = 15556 / 10000"
    by code_simp+
  from selectionPolygonsInInches_rounded[of
      "[\<lparr>rect_x = 110, rect_y = 120, rect_width = 50, rect_height = 12\<rparr>,
        \<lparr>rect_x = 110, rect_y = 132, rect_width = 0, rect_height = 12\<rparr>]" id id 10 20]
  show ?thesis
    using r by (simp add: rectCoords_def)
qed


section \<open>The outcomes when nothing is found, on the page of the unit test\<close>

lemma testLines_one_column:
  "splitIntoColumns adjacent unionBox testLines = [\<lparr>col_polygon = testPoly, col_lines = testLines\<rparr>]"
proof -
  have adj: "adjacent testPoly testPoly defaultDelta" by code_simp
  have "splitLoop adjacent unionBox testLines 0 0 [] =
          [\<lparr>col_polygon = unionBox (map line_polygon testLines), col_lines = testLines\<rparr>]"
    using adj by (intro splitLoop_single_column) (auto simp: testLines_def)
  moreover have "unionBox (map line_polygon testLines) = testPoly"
    by (simp add: unionBox_def testLines_def testPoly_def polygonize_def)
  moreover have "length testLines = 2" by (simp add: testLines_def)
  ultimately show ?thesis by (simp add: splitIntoColumns_def)
qed

lemma elsewhere_no_words:
  "collectExcerptWords adjacent unionBox testDoc [boundElsewhere] [] = Inr []"
proof -
  have "comparePolygons testPoly [300, 300, 400, 300, 400, 350, 300, 350] = - 1"
    by (simp add: comparePolygons_def testPoly_def js_at_def)
  then show ?thesis
    by (simp add: testDoc_def testPage_def boundElsewhere_def js_at_def Let_def
        testLines_one_column getRelevantColumns_def)
qed

text \<open>The amended claim C2 on a blank excerpt, and on a bound that lies away from the
  two lines of the unit test's page.\<close>

theorem notFound_outcomes_witness:
  "returnTextPolygonsFromDI locateNothing id '' '' testDoc = Inr [] \<and>
   findTextFromBoundingRegions adjacent unionBox testDoc [boundElsewhere] =
     Inr ''could not find matching line(s)''"
proof -
  have b: "js_blank (excerpt (locateNothing '' '' testDoc))"
    by (simp add: locateNothing_def js_blank_def js_whitespace_def)
  have r: "pagesReadable testDoc [boundElsewhere]"
    by (simp add: pagesReadable_def testDoc_def testPage_def boundElsewhere_def js_at_def
        testLines_def)
  from notFound_outcomes[of locateNothing "'' ''" testDoc id testDoc "[boundElsewhere]"
      adjacent unionBox] b r elsewhere_no_words
  show ?thesis by auto
qed

text \<open>
  Claim C2 as first stated has every mapper return an empty collection or an empty string
  and none throw. On the unit test's page, a bound that meets no column makes
  \<open>findTextFromBoundingRegions\<close> return a text that is not empty; and a selection
  rectangle that meets no paragraph region makes \<open>findParagraphFromBoundingPolygonC\<close>
  return nothing, on which \<open>findTextFromPolygonC\<close> reads \<open>wordIndices\<close> of \<open>undefined\<close>
  and \<open>findUserSelection\<close> ends in a \<open>TypeError\<close>.
\<close>

theorem notFound_outcomes_counterexample:
  "findTextFromBoundingRegions adjacent unionBox testDoc [boundElsewhere] =
     Inr ''could not find matching line(s)'' \<and>
   findParagraphFromBoundingPolygonC adjacent onSameLine testDoc
     \<lparr>pop_polygon = \<lparr>head = Some [0, 0, 1, 0, 1, 1, 0, 1], body = None, tail = None\<rparr>,
      pop_page = 1\<rparr> = None \<and>
   findUserSelection id adjacent onSameLine id headOnly locateNothing id 0 0 1 [inchSquare] testDoc =
     Some (Inl TypeError)"
proof -
  have 1: "findTextFromBoundingRegions adjacent unionBox testDoc [boundElsewhere] =
     Inr ''could not find matching line(s)''"
    unfolding findTextFromBoundingRegions_def elsewhere_no_words by simp
  have m: "\<not> onSameLine [0, 0, 1, 0, 1, 1, 0, 1] testPoly (9 / 10)" by code_simp
  have 2: "findParagraphFromBoundingPolygonC adjacent onSameLine testDoc
     \<lparr>pop_polygon = \<lparr>head = Some [0, 0, 1, 0, 1, 1, 0, 1], body = None, tail = None\<rparr>,
      pop_page = 1\<rparr> = None"
    using m by (simp add: findParagraphFromBoundingPolygonC_def testDoc_def testPage_def
        testRegion_def regionMatches_def)
  have r: "toInch id 0 0 = 0" "toInch id 0 72 = 1" by code_simp+
  have p: "selectionPolygonsInInches id id 0 0 [inchSquare] = Some [[0, 0, 1, 0, 1, 1, 0, 1]]"
    using r by (simp add: selectionPolygonsInInches_def inchSquare_def rectCoords_def
        toInches_def adjustEntry_def js_at_def)
  have 3: "findUserSelection id adjacent onSameLine id headOnly locateNothing id 0 0 1 [inchSquare] testDoc =
     Some (Inl TypeError)"
    using 2 by (simp add: findUserSelection_def p headOnly_def findTextFromPolygonC_def
        testDoc_def testPage_def js_at_def)
  from 1 2 3 show ?thesis by simp
qed

end
